theory Spec2Isabelle
  imports Complex_Main "HOL-Library.Product_Lexorder" "HOL-Library.Multiset"
begin

section \<open>Text: Python \<open>str\<close> over the code points 0..255\<close>

text \<open>
  A text is a list of characters. HOL's \<open>char\<close> has 256 values, read here as the
  Unicode code points 0..255 (Latin-1); the character classes below are the ones
  Python 3 uses on these code points: \<open>str.isspace\<close> (also the class \<open>\s\<close> of
  \<open>re\<close> and the separator of \<open>str.split()\<close> and \<open>str.strip()\<close>), the class
  \<open>\w\<close> of \<open>re\<close> (alphanumeric or underscore) and \<open>str.lower\<close>. A Python
  string with a code point beyond 255 has no counterpart among these texts:
  normalisation and splitting are modelled for the code points 0..255 only. The
  alignment and the scoring that follow them are modelled for words over any type
  of characters.
\<close>

definition isspace :: "char \<Rightarrow> bool" where
  "isspace c =
     (let n = (of_char c :: nat)
      in (9 \<le> n \<and> n \<le> 13) \<or> (28 \<le> n \<and> n \<le> 32) \<or> n = 133 \<or> n = 160)"

definition isword :: "char \<Rightarrow> bool" where
  "isword c =
     (let n = (of_char c :: nat)
      in (48 \<le> n \<and> n \<le> 57) \<or> (65 \<le> n \<and> n \<le> 90) \<or> n = 95 \<or> (97 \<le> n \<and> n \<le> 122)
         \<or> n = 170 \<or> n = 178 \<or> n = 179 \<or> n = 181 \<or> n = 185 \<or> n = 186
         \<or> (188 \<le> n \<and> n \<le> 190) \<or> (192 \<le> n \<and> n \<le> 214)
         \<or> (216 \<le> n \<and> n \<le> 246) \<or> (248 \<le> n \<and> n \<le> 255))"

definition lower_char :: "char \<Rightarrow> char" where
  "lower_char c =
     (let n = (of_char c :: nat)
      in if (65 \<le> n \<and> n \<le> 90) \<or> (192 \<le> n \<and> n \<le> 222 \<and> n \<noteq> 215)
         then char_of (n + 32) else c)"

definition str_lower :: "string \<Rightarrow> string" where
  "str_lower text = map lower_char text"

text \<open>\<open>re.sub(r"[^\w\s]", "", text)\<close>: every character that is neither a word
  character nor whitespace is removed.\<close>

definition re_sub_nonword :: "string \<Rightarrow> string" where
  "re_sub_nonword text = filter (\<lambda>c. isword c \<or> isspace c) text"

text \<open>\<open>re.sub(r"\s+", " ", text)\<close>: every maximal run of whitespace becomes one
  space.\<close>

function re_sub_spaces :: "string \<Rightarrow> string" where
  "re_sub_spaces [] = []"
| "re_sub_spaces (c # cs) =
     (if isspace c then CHR '' '' # re_sub_spaces (dropWhile isspace cs)
      else c # re_sub_spaces cs)"
  by pat_completeness auto
termination
  by (relation "measure length") (auto simp: le_imp_less_Suc length_dropWhile_le)

definition str_strip :: "string \<Rightarrow> string" where
  "str_strip text = rev (dropWhile isspace (rev (dropWhile isspace text)))"

text \<open>\<open>str.split()\<close> without argument: the maximal runs of non-whitespace.\<close>

function str_split :: "string \<Rightarrow> string list" where
  "str_split text =
     (case dropWhile isspace text of
        [] \<Rightarrow> []
      | c # cs \<Rightarrow> (c # takeWhile (\<lambda>x. \<not> isspace x) cs)
                  # str_split (dropWhile (\<lambda>x. \<not> isspace x) cs))"
  by pat_completeness auto
termination
proof (relation "measure length")
  show "wf (measure length)" by simp
next
  fix s :: string and c cs
  assume eq: "dropWhile isspace s = c # cs"
  have "length (dropWhile (\<lambda>x. \<not> isspace x) cs) \<le> length cs"
    by (rule length_dropWhile_le)
  also have "length cs < length (dropWhile isspace s)"
    by (simp add: eq)
  also have "\<dots> \<le> length s"
    by (rule length_dropWhile_le)
  finally show "(dropWhile (\<lambda>x. \<not> isspace x) cs, s) \<in> measure length"
    by simp
qed

declare str_split.simps [simp del]

section \<open>\<open>difflib.SequenceMatcher\<close> with \<open>isjunk = None\<close>, \<open>autojunk = True\<close>\<close>

text \<open>
  The service builds every matcher as \<open>SequenceMatcher(None, a, b)\<close>: no junk
  predicate, so the set \<open>bjunk\<close> is empty, and the automatic purge of popular
  elements is on. Indices are natural numbers; a block or match is the triple
  \<open>(i, j, k)\<close> of Python's \<open>Match(a, b, size)\<close>.
\<close>

type_synonym match = "nat \<times> nat \<times> nat"

text \<open>\<open>__chain_b\<close>: the dictionary \<open>b2j\<close> from an element of \<open>b\<close> to the
  ascending list of its indices; when \<open>b\<close> has 200 elements or more, the elements
  with more than \<open>n // 100 + 1\<close> occurrences are deleted from it.\<close>

definition chain_b :: "'a list \<Rightarrow> ('a \<rightharpoonup> nat list)" where
  "chain_b b =
     (let b2j = fold (\<lambda>(i, elt) m.
                        m(elt \<mapsto> (case m elt of None \<Rightarrow> [] | Some indices \<Rightarrow> indices) @ [i]))
                  (enumerate 0 b) Map.empty;
          n = length b
      in if n \<ge> 200
         then (let ntest = n div 100 + 1
               in (\<lambda>elt. case b2j elt of
                            None \<Rightarrow> None
                          | Some idxs \<Rightarrow> if length idxs > ntest then None else Some idxs))
         else b2j)"

text \<open>The inner loop of \<open>find_longest_match\<close>, over the indices \<open>j\<close> of \<open>a[i]\<close> in
  \<open>b\<close>. \<open>j2len.get(j-1, 0)\<close> at \<open>j = 0\<close> asks for the key \<open>-1\<close>, which no
  dictionary holds.\<close>

fun flm_inner ::
  "(nat \<rightharpoonup> nat) \<Rightarrow> nat \<Rightarrow> nat \<Rightarrow> nat \<Rightarrow> nat list
     \<Rightarrow> (nat \<rightharpoonup> nat) \<times> match \<Rightarrow> (nat \<rightharpoonup> nat) \<times> match" where
  "flm_inner j2len i blo bhi [] st = st"
| "flm_inner j2len i blo bhi (j # js) (newj2len, besti, bestj, bestsize) =
     (if j < blo then flm_inner j2len i blo bhi js (newj2len, besti, bestj, bestsize)
      else if j \<ge> bhi then (newj2len, besti, bestj, bestsize)
      else (let k = (if j = 0 then 0
                     else case j2len (j - 1) of None \<Rightarrow> 0 | Some v \<Rightarrow> v) + 1;
                newj2len' = newj2len(j \<mapsto> k)
            in if k > bestsize
               then flm_inner j2len i blo bhi js (newj2len', i + 1 - k, j + 1 - k, k)
               else flm_inner j2len i blo bhi js (newj2len', besti, bestj, bestsize)))"

text \<open>The outer loop, over \<open>i\<close> in \<open>range(alo, ahi)\<close>.\<close>

fun flm_outer ::
  "'a list \<Rightarrow> ('a \<rightharpoonup> nat list) \<Rightarrow> nat \<Rightarrow> nat \<Rightarrow> nat list
     \<Rightarrow> (nat \<rightharpoonup> nat) \<times> match \<Rightarrow> (nat \<rightharpoonup> nat) \<times> match" where
  "flm_outer a b2j blo bhi [] st = st"
| "flm_outer a b2j blo bhi (i # is) (j2len, best) =
     flm_outer a b2j blo bhi is
       (flm_inner j2len i blo bhi (case b2j (a ! i) of None \<Rightarrow> [] | Some js \<Rightarrow> js)
          (Map.empty, best))"

text \<open>The two loops that extend the best match by equal elements on each end
  (the two further loops that extend by junk never run: \<open>bjunk\<close> is empty).\<close>

function extend_lo :: "'a list \<Rightarrow> 'a list \<Rightarrow> nat \<Rightarrow> nat \<Rightarrow> match \<Rightarrow> match" where
  "extend_lo a b alo blo (besti, bestj, bestsize) =
     (if besti > alo \<and> bestj > blo \<and> a ! (besti - 1) = b ! (bestj - 1)
      then extend_lo a b alo blo (besti - 1, bestj - 1, bestsize + 1)
      else (besti, bestj, bestsize))"
  by pat_completeness auto
termination
  by (relation "measure (\<lambda>(a, b, alo, blo, besti, bestj, bestsize). besti)") auto

function extend_hi :: "'a list \<Rightarrow> 'a list \<Rightarrow> nat \<Rightarrow> nat \<Rightarrow> match \<Rightarrow> match" where
  "extend_hi a b ahi bhi (besti, bestj, bestsize) =
     (if besti + bestsize < ahi \<and> bestj + bestsize < bhi
         \<and> a ! (besti + bestsize) = b ! (bestj + bestsize)
      then extend_hi a b ahi bhi (besti, bestj, bestsize + 1)
      else (besti, bestj, bestsize))"
  by pat_completeness auto
termination
  by (relation "measure (\<lambda>(a, b, ahi, bhi, besti, bestj, bestsize). ahi - (besti + bestsize))")
     auto

declare extend_lo.simps [simp del] extend_hi.simps [simp del]

definition find_longest_match ::
  "'a list \<Rightarrow> 'a list \<Rightarrow> ('a \<rightharpoonup> nat list) \<Rightarrow> nat \<Rightarrow> nat \<Rightarrow> nat \<Rightarrow> nat \<Rightarrow> match" where
  "find_longest_match a b b2j alo ahi blo bhi =
     extend_hi a b ahi bhi
       (extend_lo a b alo blo
          (snd (flm_outer a b2j blo bhi [alo..<ahi] (Map.empty, alo, blo, 0))))"

subsection \<open>Where \<open>find_longest_match\<close> can land\<close>

text \<open>
  The entries of a row of \<open>j2len\<close> are bounded by the number of rows done and by the
  distance of their column from \<open>blo\<close>; the best match so far stays inside the
  window. Neither fact depends on the contents of \<open>a\<close>, \<open>b\<close> or \<open>b2j\<close>.
\<close>

definition row_ok :: "nat \<Rightarrow> nat \<Rightarrow> (nat \<rightharpoonup> nat) \<Rightarrow> bool" where
  "row_ok n blo m = (\<forall>j k. m j = Some k \<longrightarrow> k \<le> n \<and> k \<le> j + 1 - blo)"

definition best_ok :: "nat \<Rightarrow> nat \<Rightarrow> nat \<Rightarrow> nat \<Rightarrow> match \<Rightarrow> bool" where
  "best_ok alo ahi blo bhi best =
     (case best of (besti, bestj, bestsize) \<Rightarrow>
        alo \<le> besti \<and> blo \<le> bestj
        \<and> (bestsize = 0 \<longrightarrow> besti = alo \<and> bestj = blo)
        \<and> (0 < bestsize \<longrightarrow> besti + bestsize \<le> ahi \<and> bestj + bestsize \<le> bhi))"

lemma row_ok_empty: "row_ok n blo Map.empty"
  by (simp add: row_ok_def)

lemma flm_inner_ok:
  assumes "row_ok (i - alo) blo j2len" and "alo \<le> i" and "i < ahi"
  shows "row_ok (i + 1 - alo) blo newj2len \<Longrightarrow> best_ok alo ahi blo bhi best \<Longrightarrow>
         flm_inner j2len i blo bhi js (newj2len, best) = (m', best') \<Longrightarrow>
         row_ok (i + 1 - alo) blo m' \<and> best_ok alo ahi blo bhi best'"
proof (induction js arbitrary: newj2len best)
  case Nil
  then show ?case by simp
next
  case (Cons j js)
  obtain besti bestj bestsize where best: "best = (besti, bestj, bestsize)"
    by (cases best) auto
  show ?case
  proof (cases "j < blo")
    case True
    with Cons best show ?thesis by simp
  next
    case lo: False
    show ?thesis
    proof (cases "bhi \<le> j")
      case True
      with Cons.prems lo best show ?thesis by simp
    next
      case hi: False
      define k where "k = (if j = 0 then 0 else case j2len (j - 1) of None \<Rightarrow> 0 | Some v \<Rightarrow> v) + 1"
      have prev: "v \<le> i - alo \<and> v \<le> j - blo" if "j2len (j - 1) = Some v" and "0 < j" for v
        using assms(1) that unfolding row_ok_def by fastforce
      have k1: "k \<le> i + 1 - alo"
      proof (cases "j = 0")
        case True
        with assms(2) show ?thesis by (simp add: k_def)
      next
        case False
        then show ?thesis
          using prev assms(2) by (cases "j2len (j - 1)") (auto simp: k_def)
      qed
      have k2: "k \<le> j + 1 - blo"
      proof (cases "j = 0")
        case True
        with lo show ?thesis by (simp add: k_def)
      next
        case False
        then show ?thesis
          using prev lo by (cases "j2len (j - 1)") (auto simp: k_def)
      qed
      have kpos: "0 < k" by (simp add: k_def)
      have row': "row_ok (i + 1 - alo) blo (newj2len(j \<mapsto> k))"
        using Cons.prems(1) k1 k2 by (auto simp: row_ok_def)
      have best': "best_ok alo ahi blo bhi (i + 1 - k, j + 1 - k, k)"
        using k1 k2 kpos assms(2,3) lo hi by (auto simp: best_ok_def)
      show ?thesis
      proof (cases "bestsize < k")
        case True
        then have eq: "flm_inner j2len i blo bhi (j # js) (newj2len, best)
                   = flm_inner j2len i blo bhi js (newj2len(j \<mapsto> k), i + 1 - k, j + 1 - k, k)"
          using lo hi best by (simp add: k_def Let_def)
        have "flm_inner j2len i blo bhi js (newj2len(j \<mapsto> k), i + 1 - k, j + 1 - k, k)
              = (m', best')"
          using Cons.prems(3) unfolding eq .
        then show ?thesis by (rule Cons.IH [OF row' best'])
      next
        case False
        then have eq: "flm_inner j2len i blo bhi (j # js) (newj2len, best)
                   = flm_inner j2len i blo bhi js (newj2len(j \<mapsto> k), best)"
          using lo hi best by (simp add: k_def Let_def)
        have "flm_inner j2len i blo bhi js (newj2len(j \<mapsto> k), best) = (m', best')"
          using Cons.prems(3) unfolding eq .
        then show ?thesis by (rule Cons.IH [OF row' Cons.prems(2)])
      qed
    qed
  qed
qed

lemma flm_outer_ok:
  "alo \<le> lo \<Longrightarrow> row_ok (lo - alo) blo j2len \<Longrightarrow> best_ok alo ahi blo bhi best \<Longrightarrow>
   best_ok alo ahi blo bhi (snd (flm_outer a b2j blo bhi [lo..<ahi] (j2len, best)))"
proof (induction "ahi - lo" arbitrary: lo j2len best)
  case 0
  then show ?case by simp
next
  case (Suc n)
  then have lt: "lo < ahi" by simp
  let ?js = "case b2j (a ! lo) of None \<Rightarrow> [] | Some js \<Rightarrow> js"
  obtain m' best' where step: "flm_inner j2len lo blo bhi ?js (Map.empty, best) = (m', best')"
    by (cases "flm_inner j2len lo blo bhi ?js (Map.empty, best)") auto
  from flm_inner_ok [OF Suc.prems(2) Suc.prems(1) lt row_ok_empty Suc.prems(3) step]
  have row': "row_ok (Suc lo - alo) blo m'" and best': "best_ok alo ahi blo bhi best'"
    by simp_all
  have "n = ahi - Suc lo" using Suc.hyps(2) by simp
  from Suc.hyps(1) [OF this _ row' best'] Suc.prems(1)
  have "best_ok alo ahi blo bhi (snd (flm_outer a b2j blo bhi [Suc lo..<ahi] (m', best')))"
    by simp
  then show ?case
    using lt step by (simp add: upt_conv_Cons)
qed

lemma extend_lo_ok:
  "best_ok alo ahi blo bhi best \<Longrightarrow> best_ok alo ahi blo bhi (extend_lo a b alo blo best)"
proof (induction a b alo blo best rule: extend_lo.induct)
  case (1 a b alo blo besti bestj bestsize)
  show ?case
  proof (cases "besti > alo \<and> bestj > blo \<and> a ! (besti - 1) = b ! (bestj - 1)")
    case True
    have step: "extend_lo a b alo blo (besti, bestj, bestsize)
                = extend_lo a b alo blo (besti - 1, bestj - 1, bestsize + 1)"
      using True by (subst extend_lo.simps) simp
    have "best_ok alo ahi blo bhi (besti - 1, bestj - 1, bestsize + 1)"
      using True "1.prems" by (auto simp: best_ok_def)
    with "1.IH" True step show ?thesis by simp
  next
    case False
    then have "extend_lo a b alo blo (besti, bestj, bestsize) = (besti, bestj, bestsize)"
      by (subst extend_lo.simps) auto
    with "1.prems" show ?thesis by simp
  qed
qed

lemma extend_hi_ok:
  "best_ok alo ahi blo bhi best \<Longrightarrow> best_ok alo ahi blo bhi (extend_hi a b ahi bhi best)"
proof (induction a b ahi bhi best rule: extend_hi.induct)
  case (1 a b ahi bhi besti bestj bestsize)
  show ?case
  proof (cases "besti + bestsize < ahi \<and> bestj + bestsize < bhi
                \<and> a ! (besti + bestsize) = b ! (bestj + bestsize)")
    case True
    have step: "extend_hi a b ahi bhi (besti, bestj, bestsize)
                = extend_hi a b ahi bhi (besti, bestj, bestsize + 1)"
      using True by (subst extend_hi.simps) simp
    have "best_ok alo ahi blo bhi (besti, bestj, bestsize + 1)"
      using True "1.prems" by (auto simp: best_ok_def)
    with "1.IH" True step show ?thesis by simp
  next
    case False
    then have "extend_hi a b ahi bhi (besti, bestj, bestsize) = (besti, bestj, bestsize)"
      by (subst extend_hi.simps) auto
    with "1.prems" show ?thesis by simp
  qed
qed

lemma find_longest_match_ok:
  "best_ok alo ahi blo bhi (find_longest_match a b b2j alo ahi blo bhi)"
proof -
  have "best_ok alo ahi blo bhi (alo, blo, 0)"
    by (simp add: best_ok_def)
  then have "best_ok alo ahi blo bhi
               (snd (flm_outer a b2j blo bhi [alo..<ahi] (Map.empty, alo, blo, 0)))"
    by (intro flm_outer_ok) (simp_all add: row_ok_empty)
  then show ?thesis
    unfolding find_longest_match_def by (intro extend_hi_ok extend_lo_ok)
qed

lemma find_longest_match_bounds:
  assumes "find_longest_match a b b2j alo ahi blo bhi = (i, j, k)"
  shows "alo \<le> i" and "blo \<le> j" and "0 < k \<Longrightarrow> i + k \<le> ahi" and "0 < k \<Longrightarrow> j + k \<le> bhi"
    and "k = 0 \<Longrightarrow> i = alo \<and> j = blo"
  using find_longest_match_ok [of alo ahi blo bhi a b b2j] assms
  by (auto simp: best_ok_def)

subsection \<open>\<open>get_matching_blocks\<close>\<close>

text \<open>
  The work list \<open>queue\<close> is a Python list used as a stack: \<open>queue.pop()\<close> takes
  the last element, \<open>queue.append\<close> adds at the end. The loop ends because every
  window pushed is shorter than the one popped.
\<close>

type_synonym window = "nat \<times> nat \<times> nat \<times> nat"

definition queue_size :: "window list \<Rightarrow> nat" where
  "queue_size queue = (\<Sum>(alo, ahi, blo, bhi) \<leftarrow> queue. 2 * (ahi - alo) + 1)"

lemma queue_size_pop:
  "queue \<noteq> [] \<Longrightarrow> last queue = (alo, ahi, blo, bhi) \<Longrightarrow>
   queue_size queue = queue_size (butlast queue) + 2 * (ahi - alo) + 1"
proof -
  assume "queue \<noteq> []" and l: "last queue = (alo, ahi, blo, bhi)"
  then have "queue = butlast queue @ [(alo, ahi, blo, bhi)]"
    by (metis append_butlast_last_id)
  then have "queue_size queue = queue_size (butlast queue @ [(alo, ahi, blo, bhi)])"
    by simp
  then show ?thesis
    by (simp add: queue_size_def)
qed

lemma queue_size_push:
  assumes "queue \<noteq> []" and "last queue = (alo, ahi, blo, bhi)"
    and "find_longest_match a b b2j alo ahi blo bhi = (i, j, k)" and "k \<noteq> 0"
  shows "queue_size (butlast queue @ (if alo < i \<and> blo < j then [(alo, i, blo, j)] else [])
                      @ (if i + k < ahi \<and> j + k < bhi then [(i + k, ahi, j + k, bhi)] else []))
         < queue_size queue"
proof -
  have "alo \<le> i" and "i + k \<le> ahi" and "0 < k"
    using find_longest_match_bounds [OF assms(3)] assms(4) by simp_all
  then show ?thesis
    unfolding queue_size_pop [OF assms(1,2)] by (auto simp: queue_size_def)
qed

function mb_loop ::
  "'a list \<Rightarrow> 'a list \<Rightarrow> ('a \<rightharpoonup> nat list) \<Rightarrow> window list \<Rightarrow> match list \<Rightarrow> match list" where
  "mb_loop a b b2j queue matching_blocks =
     (if queue = [] then matching_blocks
      else case last queue of (alo, ahi, blo, bhi) \<Rightarrow>
        (case find_longest_match a b b2j alo ahi blo bhi of (i, j, k) \<Rightarrow>
           if k \<noteq> 0
           then mb_loop a b b2j
                  (butlast queue
                     @ (if alo < i \<and> blo < j then [(alo, i, blo, j)] else [])
                     @ (if i + k < ahi \<and> j + k < bhi then [(i + k, ahi, j + k, bhi)] else []))
                  (matching_blocks @ [(i, j, k)])
           else mb_loop a b b2j (butlast queue) matching_blocks))"
  by pat_completeness auto
termination
proof (relation "measure (\<lambda>(a, b, b2j, queue, matching_blocks). queue_size queue)")
  show "wf (measure (\<lambda>(a, b, b2j, queue, matching_blocks). queue_size queue))"
    by simp
next
  fix a b :: "'a list" and b2j :: "'a \<rightharpoonup> nat list" and queue :: "window list"
    and matching_blocks :: "match list" and x1 x2 alo ahi x3 blo bhi x4 i x5 j k
  assume "queue \<noteq> []" and "(alo, x1) = last queue" and "(ahi, x2) = x1"
    and "(blo, bhi) = x2" and "(i, x5) = find_longest_match a b b2j alo ahi blo bhi"
    and "(j, k) = x5" and "k \<noteq> 0"
  then have "queue_size (butlast queue @ (if alo < i \<and> blo < j then [(alo, i, blo, j)] else [])
                      @ (if i + k < ahi \<and> j + k < bhi then [(i + k, ahi, j + k, bhi)] else []))
             < queue_size queue"
    by (intro queue_size_push [where a = a and b = b and ?b2j = b2j]) auto
  then show "((a, b, b2j,
               butlast queue @ (if alo < i \<and> blo < j then [(alo, i, blo, j)] else [])
                 @ (if i + k < ahi \<and> j + k < bhi then [(i + k, ahi, j + k, bhi)] else []),
               matching_blocks @ [(i, j, k)]),
              a, b, b2j, queue, matching_blocks)
             \<in> measure (\<lambda>(a, b, b2j, queue, matching_blocks). queue_size queue)"
    by simp
next
  fix a b :: "'a list" and b2j :: "'a \<rightharpoonup> nat list" and queue :: "window list"
    and matching_blocks :: "match list" and x1 x2 alo ahi x3 blo bhi x4 i x5 j k
  assume "queue \<noteq> []" and "(alo, x1) = last queue" and "(ahi, x2) = x1"
    and "(blo, bhi) = x2"
  then have "queue_size queue = queue_size (butlast queue) + 2 * (ahi - alo) + 1"
    by (intro queue_size_pop [where blo = blo and bhi = bhi]) auto
  then show "((a, b, b2j, butlast queue, matching_blocks), a, b, b2j, queue, matching_blocks)
             \<in> measure (\<lambda>(a, b, b2j, queue, matching_blocks). queue_size queue)"
    by simp
qed

declare mb_loop.simps [simp del]

text \<open>The loop that merges adjacent blocks of the sorted list; \<open>(i1, j1, k1)\<close> is
  the block being grown.\<close>

fun collapse :: "match list \<Rightarrow> match \<Rightarrow> match list \<Rightarrow> match list" where
  "collapse [] (i1, j1, k1) non_adjacent =
     (if k1 \<noteq> 0 then non_adjacent @ [(i1, j1, k1)] else non_adjacent)"
| "collapse ((i2, j2, k2) # rest) (i1, j1, k1) non_adjacent =
     (if i1 + k1 = i2 \<and> j1 + k1 = j2
      then collapse rest (i1, j1, k1 + k2) non_adjacent
      else collapse rest (i2, j2, k2)
             (if k1 \<noteq> 0 then non_adjacent @ [(i1, j1, k1)] else non_adjacent))"

text \<open>\<open>matching_blocks.sort()\<close> orders the triples lexicographically, as the order
  on products does.\<close>

definition get_matching_blocks :: "'a list \<Rightarrow> 'a list \<Rightarrow> match list" where
  "get_matching_blocks a b =
     (let la = length a; lb = length b;
          matching_blocks = mb_loop a b (chain_b b) [(0, la, 0, lb)] []
      in collapse (sort matching_blocks) (0, 0, 0) [] @ [(la, lb, 0)])"

subsection \<open>\<open>get_opcodes\<close> and \<open>ratio\<close>\<close>

datatype tag = Replace | Delete | Insert | Equal

type_synonym opcode = "tag \<times> nat \<times> nat \<times> nat \<times> nat"

fun opcodes_loop :: "match list \<Rightarrow> nat \<Rightarrow> nat \<Rightarrow> opcode list \<Rightarrow> opcode list" where
  "opcodes_loop [] i j answer = answer"
| "opcodes_loop ((ai, bj, sz) # rest) i j answer =
     (let answer1 = (if i < ai \<and> j < bj then answer @ [(Replace, i, ai, j, bj)]
                     else if i < ai then answer @ [(Delete, i, ai, j, bj)]
                     else if j < bj then answer @ [(Insert, i, ai, j, bj)]
                     else answer);
          i' = ai + sz;
          j' = bj + sz;
          answer2 = (if sz \<noteq> 0 then answer1 @ [(Equal, ai, i', bj, j')] else answer1)
      in opcodes_loop rest i' j' answer2)"

definition get_opcodes :: "'a list \<Rightarrow> 'a list \<Rightarrow> opcode list" where
  "get_opcodes a b = opcodes_loop (get_matching_blocks a b) 0 0 []"

text \<open>
  \<open>ratio\<close> returns a float. Floats are modelled by the rationals: every operation
  is exact, so the rounding of binary64 arithmetic is outside the model. What is
  in the model is the failure of a division: Python's \<open>x / y\<close> raises
  \<open>ZeroDivisionError\<close> when \<open>y\<close> is zero, and an index read outside a list raises
  \<open>IndexError\<close>. Both are values of the type \<open>error\<close>, and a computation that can
  raise returns \<open>Inl\<close> of the error or \<open>Inr\<close> of its result.
\<close>

datatype error = IndexError | ZeroDivisionError

definition truediv :: "rat \<Rightarrow> rat \<Rightarrow> error + rat" where
  "truediv x y = (if y = 0 then Inl ZeroDivisionError else Inr (x / y))"

definition calculate_ratio :: "nat \<Rightarrow> nat \<Rightarrow> error + rat" where
  "calculate_ratio matches len =
     (if len \<noteq> 0 then truediv (2 * of_nat matches) (of_nat len) else Inr 1)"

definition ratio :: "'a list \<Rightarrow> 'a list \<Rightarrow> error + rat" where
  "ratio a b =
     calculate_ratio (\<Sum>(i, j, k) \<leftarrow> get_matching_blocks a b. k) (length a + length b)"

section \<open>The pronunciation service: scoring\<close>

text \<open>
  \<open>PronunciationService._score\<close> and the methods it calls. From the alignment on,
  \<open>_score\<close> works on the two word sequences and never looks into a character
  except to compare it with another: this part is modelled for words over any
  type \<open>'c\<close> of characters, the 256 characters of the texts above being one instance
  and the code points of Unicode another.
\<close>

record 'c word_error =
  word :: "'c list"
  expected :: "'c list"
  spoken :: "'c list"
  position :: nat
  is_correct :: bool

record evaluation_result =
  overall_score :: rat
  accuracy_score :: rat
  fluency_score :: rat
  word_errors :: "char word_error list"
  feedback :: string
  spoken_text :: string
  expected_text :: string

definition ps_normalise :: "string \<Rightarrow> string" where
  "ps_normalise text = str_strip (re_sub_spaces (re_sub_nonword (str_lower text)))"

text \<open>\<open>_fluency_score\<close>: the division is reached only for a non-empty
  \<open>expected_words\<close>.\<close>

definition ps_fluency_score :: "'c list list \<Rightarrow> 'c list list \<Rightarrow> error + rat" where
  "ps_fluency_score spoken_words expected_words =
     (if expected_words = [] then Inr 100
      else case truediv (of_nat (length spoken_words)) (of_nat (length expected_words)) of
             Inl e \<Rightarrow> Inl e
           | Inr r \<Rightarrow>
               Inr (if 4 / 5 \<le> r \<and> r \<le> 6 / 5 then 100
                    else if 1 / 2 \<le> r \<and> r \<le> 3 / 2 then 70
                    else 40))"

text \<open>The second message holds an en dash, U+2013, which is none of the 256
  characters: it is written as the three bytes of its UTF-8 encoding.\<close>

definition en_dash :: string where
  "en_dash = [CHR 0xE2, CHR 0x80, CHR 0x93]"

definition ps_feedback :: "rat \<Rightarrow> string" where
  "ps_feedback score =
     (if score \<ge> 90 then ''Excellent pronunciation! You sound very natural.''
      else if score \<ge> 75
        then ''Great job! Just a few words to polish '' @ en_dash @ '' keep practising!''
      else if score \<ge> 60
        then ''Good effort! Try listening to the slow version and repeating.''
      else if score \<ge> 40
        then ''You'' @ [CHR 0x27]
             @ ''re making progress! Focus on the highlighted words and try again.''
      else ''Keep going! Every attempt makes you better. Try saying it slowly first.'')"

text \<open>\<open>round(x, 1)\<close>: to one decimal place, a tie going to the even digit.\<close>

definition round_half_even :: "rat \<Rightarrow> int" where
  "round_half_even x =
     (let f = \<lfloor>x\<rfloor>; d = x - of_int f
      in if d < 1 / 2 then f
         else if d > 1 / 2 then f + 1
         else if even f then f else f + 1)"

definition round1 :: "rat \<Rightarrow> rat" where
  "round1 x = of_int (round_half_even (x * 10)) / 10"

text \<open>The three inner loops of \<open>_score\<close>, one for each tag that reports words.\<close>

fun equal_loop ::
  "'c list list \<Rightarrow> 'c list list \<Rightarrow> nat \<Rightarrow> nat \<Rightarrow> nat list \<Rightarrow> 'c word_error list
     \<Rightarrow> error + 'c word_error list" where
  "equal_loop expected_words spoken_words i1 j1 [] errs = Inr errs"
| "equal_loop expected_words spoken_words i1 j1 (idx # rest) errs =
     (if idx < length expected_words \<and> j1 + (idx - i1) < length spoken_words
      then equal_loop expected_words spoken_words i1 j1 rest
             (errs @ [\<lparr>word = expected_words ! idx, expected = expected_words ! idx,
                       spoken = spoken_words ! (j1 + (idx - i1)), position = idx,
                       is_correct = True\<rparr>])
      else Inl IndexError)"

fun replace_loop ::
  "'c list list \<Rightarrow> 'c list list \<Rightarrow> nat \<Rightarrow> (nat \<times> nat) list \<Rightarrow> rat \<times> 'c word_error list
     \<Rightarrow> error + rat \<times> 'c word_error list" where
  "replace_loop expected_words spoken_words j1 [] st = Inr st"
| "replace_loop expected_words spoken_words j1 ((k, idx) # rest) (correct_count, errs) =
     (let spoken_w = (if j1 + k < length spoken_words then spoken_words ! (j1 + k) else [])
      in if idx < length expected_words
         then (case ratio (expected_words ! idx) spoken_w of
                 Inl e \<Rightarrow> Inl e
               | Inr sim \<Rightarrow>
                   (let is_close = (sim \<ge> 3 / 5);
                        correct_count' = (if is_close then correct_count + sim
                                          else correct_count)
                    in replace_loop expected_words spoken_words j1 rest
                         (correct_count',
                          errs @ [\<lparr>word = expected_words ! idx,
                                    expected = expected_words ! idx,
                                    spoken = spoken_w, position = idx,
                                    is_correct = is_close\<rparr>])))
         else Inl IndexError)"

fun delete_loop ::
  "'c list list \<Rightarrow> nat list \<Rightarrow> 'c word_error list \<Rightarrow> error + 'c word_error list" where
  "delete_loop expected_words [] errs = Inr errs"
| "delete_loop expected_words (idx # rest) errs =
     (if idx < length expected_words
      then delete_loop expected_words rest
             (errs @ [\<lparr>word = expected_words ! idx, expected = expected_words ! idx,
                       spoken = [], position = idx, is_correct = False\<rparr>])
      else Inl IndexError)"

text \<open>The loop over the opcodes; an \<open>insert\<close> opcode does nothing.\<close>

fun score_loop ::
  "'c list list \<Rightarrow> 'c list list \<Rightarrow> opcode list \<Rightarrow> rat \<times> 'c word_error list
     \<Rightarrow> error + rat \<times> 'c word_error list" where
  "score_loop expected_words spoken_words [] st = Inr st"
| "score_loop expected_words spoken_words ((t, i1, i2, j1, j2) # ops) (correct_count, errs) =
     (case t of
        Equal \<Rightarrow>
          (case equal_loop expected_words spoken_words i1 j1 [i1..<i2] errs of
             Inl e \<Rightarrow> Inl e
           | Inr errs' \<Rightarrow>
               score_loop expected_words spoken_words ops
                 (correct_count + of_nat (i2 - i1), errs'))
      | Replace \<Rightarrow>
          (case replace_loop expected_words spoken_words j1 (enumerate 0 [i1..<i2])
                  (correct_count, errs) of
             Inl e \<Rightarrow> Inl e
           | Inr st' \<Rightarrow> score_loop expected_words spoken_words ops st')
      | Delete \<Rightarrow>
          (case delete_loop expected_words [i1..<i2] errs of
             Inl e \<Rightarrow> Inl e
           | Inr errs' \<Rightarrow> score_loop expected_words spoken_words ops (correct_count, errs'))
      | Insert \<Rightarrow> score_loop expected_words spoken_words ops (correct_count, errs))"

text \<open>
  The body of \<open>_score\<close> from the alignment to the three scores (the matcher, the
  loop over its opcodes, \<open>accuracy\<close>, \<open>fluency\<close> and \<open>overall\<close>): what it yields is
  \<open>(overall, accuracy, fluency, word_errors)\<close>, not yet clamped or rounded.
\<close>

definition score_words ::
  "'c list list \<Rightarrow> 'c list list \<Rightarrow> error + rat \<times> rat \<times> rat \<times> 'c word_error list" where
  "score_words spoken_words expected_words =
     (let total = length expected_words
      in case score_loop expected_words spoken_words
                (get_opcodes expected_words spoken_words) (0, []) of
           Inl e \<Rightarrow> Inl e
         | Inr (correct_count, errs) \<Rightarrow>
             (case truediv correct_count (of_nat (max total 1)) of
                Inl e \<Rightarrow> Inl e
              | Inr q \<Rightarrow>
                  (let accuracy = q * 100
                   in case ps_fluency_score spoken_words expected_words of
                        Inl e \<Rightarrow> Inl e
                      | Inr fluency \<Rightarrow>
                          (let overall = accuracy * (7 / 10) + fluency * (3 / 10)
                           in Inr (overall, accuracy, fluency, errs)))))"

text \<open>\<open>_score\<close>: the two texts are normalised and split, scored, and the result is
  built, the feedback from the overall score as computed, the three scores clamped
  to \<open>[0, 100]\<close> and rounded.\<close>

definition ps_score :: "string \<Rightarrow> string \<Rightarrow> error + evaluation_result" where
  "ps_score spoken_in expected_in =
     (let spoken_clean = ps_normalise spoken_in;
          expected_clean = ps_normalise expected_in;
          spoken_words = str_split spoken_clean;
          expected_words = str_split expected_clean
      in case score_words spoken_words expected_words of
           Inl e \<Rightarrow> Inl e
         | Inr (overall, accuracy, fluency, errs) \<Rightarrow>
             Inr \<lparr>overall_score = round1 (min (max overall 0) 100),
                  accuracy_score = round1 (min (max accuracy 0) 100),
                  fluency_score = round1 (min (max fluency 0) 100),
                  word_errors = errs,
                  feedback = ps_feedback overall,
                  spoken_text = spoken_in,
                  expected_text = expected_in\<rparr>)"

section \<open>Rounding and the bands of the length ratio\<close>

text \<open>Comparing two quotients of natural numbers gives the same answer in the
  rationals and in the reals: both are the comparison of the cross products.\<close>

lemma le_div_nat:
  assumes "0 < n" and "0 < q"
  shows "((of_nat p :: 'a :: linordered_field) / of_nat q \<le> of_nat m / of_nat n)
         = (p * n \<le> q * m)"
proof -
  have "((of_nat p :: 'a) / of_nat q \<le> of_nat m / of_nat n)
        = ((of_nat (p * n) :: 'a) \<le> of_nat (q * m))"
    using assms by (simp add: field_simps)
  then show ?thesis by (simp only: of_nat_le_iff)
qed

lemma band_real_rat:
  assumes "0 < n" and "0 < q"
  shows "((of_nat p :: rat) / of_nat q \<le> of_nat m / of_nat n)
         = ((of_nat p :: real) / of_nat q \<le> of_nat m / of_nat n)"
    and "((of_nat m :: rat) / of_nat n \<le> of_nat p / of_nat q)
         = ((of_nat m :: real) / of_nat n \<le> of_nat p / of_nat q)"
  using assms by (simp_all only: le_div_nat)

text \<open>Rounding half to even reaches an even integer \<open>m\<close> exactly from
  \<open>m - 1/2\<close> on: the tie at \<open>m - 1/2\<close> lies above the odd integer \<open>m - 1\<close> and
  goes up.\<close>

lemma round_half_even_ge:
  assumes "even m"
  shows "(m \<le> round_half_even y) = (of_int m - 1 / 2 \<le> y)"
proof -
  define f where "f = \<lfloor>y\<rfloor>"
  define d where "d = y - of_int f"
  have f1: "of_int f \<le> y" and f2: "y < of_int f + 1"
    unfolding f_def by linarith+
  have r: "round_half_even y = (if d < 1 / 2 then f else if d > 1 / 2 then f + 1
                                else if even f then f else f + 1)"
    by (simp add: round_half_even_def Let_def f_def d_def)
  consider (lo) "d < 1 / 2" | (hi) "d > 1 / 2" | (tie) "d = 1 / 2"
    by linarith
  then show ?thesis
  proof cases
    case lo
    have "(m \<le> f) = (of_int m - 1 / 2 \<le> y)"
    proof
      assume "m \<le> f"
      then have "(of_int m :: rat) \<le> of_int f" by simp
      with f1 show "of_int m - 1 / 2 \<le> y" by linarith
    next
      assume "of_int m - 1 / 2 \<le> y"
      with lo have "(of_int m :: rat) < of_int (f + 1)" by (simp add: d_def)
      then have "m < f + 1" by (simp only: of_int_less_iff)
      then show "m \<le> f" by simp
    qed
    with lo show ?thesis by (simp add: r)
  next
    case hi
    have "(m \<le> f + 1) = (of_int m - 1 / 2 \<le> y)"
    proof
      assume "m \<le> f + 1"
      then have "(of_int m :: rat) \<le> of_int (f + 1)" by (simp only: of_int_le_iff)
      with hi show "of_int m - 1 / 2 \<le> y" by (simp add: d_def)
    next
      assume "of_int m - 1 / 2 \<le> y"
      with f2 have "(of_int m :: rat) < of_int (f + 2)" by simp
      then have "m < f + 2" by (simp only: of_int_less_iff)
      then show "m \<le> f + 1" by simp
    qed
    with hi show ?thesis by (simp add: r)
  next
    case tie
    then have y: "y = of_int f + 1 / 2" by (simp add: d_def)
    have "(of_int m - 1 / 2 \<le> y) = ((of_int m :: rat) \<le> of_int (f + 1))"
      by (simp add: y add.commute)
    also have "\<dots> = (m \<le> f + 1)" by (simp only: of_int_le_iff)
    finally have e: "(of_int m - 1 / 2 \<le> y) = (m \<le> f + 1)" .
    show ?thesis
    proof (cases "even f")
      case True
      with assms have "m \<noteq> f + 1" by auto
      then have "(m \<le> f) = (m \<le> f + 1)" by auto
      with True tie show ?thesis by (simp add: r e)
    next
      case False
      with tie show ?thesis by (simp add: r e)
    qed
  qed
qed

text \<open>So \<open>round(x, 1)\<close> reaches a whole number \<open>n\<close> exactly from \<open>n - 0.05\<close> on.\<close>

lemma round1_ge: "(of_int n \<le> round1 x) = (of_int n - 1 / 20 \<le> x)"
proof -
  have "(of_int n \<le> round1 x)
        = ((of_int (10 * n) :: rat) \<le> of_int (round_half_even (x * 10)))"
    by (simp add: round1_def field_simps)
  also have "\<dots> = (10 * n \<le> round_half_even (x * 10))"
    by (simp only: of_int_le_iff)
  also have "\<dots> = (of_int (10 * n) - 1 / 2 \<le> x * 10)"
    by (rule round_half_even_ge) simp
  also have "\<dots> = (of_int n - 1 / 20 \<le> x)"
    by (simp add: field_simps)
  finally show ?thesis .
qed

section \<open>Where the matching blocks lie\<close>

definition dj :: "nat \<times> nat \<Rightarrow> nat \<times> nat \<Rightarrow> bool" where
  "dj x y = (snd x \<le> fst y \<or> snd y \<le> fst x)"

definition win_ivl :: "window \<Rightarrow> nat \<times> nat" where
  "win_ivl w = (case w of (alo, ahi, blo, bhi) \<Rightarrow> (alo, ahi))"

definition blk_ivl :: "match \<Rightarrow> nat \<times> nat" where
  "blk_ivl m = (case m of (i, j, k) \<Rightarrow> (i, i + k))"

definition win_ok :: "nat \<Rightarrow> nat \<Rightarrow> window \<Rightarrow> bool" where
  "win_ok la lb w = (case w of (alo, ahi, blo, bhi) \<Rightarrow> ahi \<le> la \<and> bhi \<le> lb)"

definition blk_le :: "nat \<Rightarrow> nat \<Rightarrow> match \<Rightarrow> bool" where
  "blk_le la lb m = (case m of (i, j, k) \<Rightarrow> i + k \<le> la \<and> j + k \<le> lb)"

definition blk_ok :: "nat \<Rightarrow> nat \<Rightarrow> match \<Rightarrow> bool" where
  "blk_ok la lb m = (case m of (i, j, k) \<Rightarrow> 0 < k \<and> i + k \<le> la \<and> j + k \<le> lb)"

definition mb_inv :: "nat \<Rightarrow> nat \<Rightarrow> window list \<Rightarrow> match list \<Rightarrow> bool" where
  "mb_inv la lb queue blocks =
     (list_all (win_ok la lb) queue \<and> list_all (blk_ok la lb) blocks
      \<and> sorted_wrt dj (map win_ivl queue) \<and> sorted_wrt dj (map blk_ivl blocks)
      \<and> (\<forall>w \<in> set queue. \<forall>m \<in> set blocks. dj (win_ivl w) (blk_ivl m)))"

definition before :: "match \<Rightarrow> match \<Rightarrow> bool" where
  "before x y = (case x of (i1, j1, k1) \<Rightarrow> case y of (i2, j2, k2) \<Rightarrow> i1 + k1 \<le> i2)"

fun chainA :: "nat \<Rightarrow> match list \<Rightarrow> bool" where
  "chainA c [] = True"
| "chainA c ((i, j, k) # rest) = (c \<le> i \<and> chainA (i + k) rest)"

fun op_positions :: "opcode list \<Rightarrow> nat list" where
  "op_positions [] = []"
| "op_positions ((t, i1, i2, j1, j2) # ops) =
     (if t = Insert then [] else [i1..<i2]) @ op_positions ops"

definition op_ok :: "nat \<Rightarrow> nat \<Rightarrow> opcode \<Rightarrow> bool" where
  "op_ok la lb opc =
     (case opc of (t, i1, i2, j1, j2) \<Rightarrow>
        i2 \<le> la \<and> (if t = Equal then j1 + (i2 - i1) \<le> lb else True))"

definition we_ok :: "'c word_error \<Rightarrow> bool" where
  "we_ok we = (if spoken we = [] then \<not> is_correct we else True)"

lemma blk_le_simp [simp]: "blk_le la lb (i, j, k) = (i + k \<le> la \<and> j + k \<le> lb)"
  by (simp add: blk_le_def)

lemma op_ok_simp [simp]:
  "op_ok la lb (t, i1, i2, j1, j2)
   = (i2 \<le> la \<and> (if t = Equal then j1 + (i2 - i1) \<le> lb else True))"
  by (simp add: op_ok_def)

lemma we_ok_simp [simp]:
  "we_ok \<lparr>word = w, expected = e, spoken = s, position = p, is_correct = c\<rparr>
   = (if s = [] then \<not> c else True)"
  by (simp add: we_ok_def)

lemma dj_sub: "dj x (l, h) \<Longrightarrow> l \<le> l' \<Longrightarrow> h' \<le> h \<Longrightarrow> dj x (l', h')"
  by (auto simp: dj_def)

lemma dj_sym: "dj x y \<Longrightarrow> dj y x"
  by (auto simp: dj_def)

lemma mb_inv_pop: "mb_inv la lb (q @ [w]) blocks \<Longrightarrow> mb_inv la lb q blocks"
  by (auto simp: mb_inv_def sorted_wrt_append)

lemma mb_inv_push:
  assumes inv: "mb_inv la lb (q @ [(alo, ahi, blo, bhi)]) blocks"
    and b: "alo \<le> i" "blo \<le> j" "i + k \<le> ahi" "j + k \<le> bhi" "0 < k"
  shows "mb_inv la lb
           (q @ (if alo < i \<and> blo < j then [(alo, i, blo, j)] else [])
              @ (if i + k < ahi \<and> j + k < bhi then [(i + k, ahi, j + k, bhi)] else []))
           (blocks @ [(i, j, k)])"
proof -
  define new where "new = (if alo < i \<and> blo < j then [(alo, i, blo, j)] else [])
              @ (if i + k < ahi \<and> j + k < bhi then [(i + k, ahi, j + k, bhi)] else [])"
  have W: "win_ok la lb (alo, ahi, blo, bhi)"
    using inv by (simp add: mb_inv_def)
  have q1: "list_all (win_ok la lb) q" and q2: "list_all (blk_ok la lb) blocks"
    and q3: "sorted_wrt dj (map win_ivl q)" and q4: "sorted_wrt dj (map blk_ivl blocks)"
    and q5: "\<forall>w \<in> set q. dj (win_ivl w) (alo, ahi)"
    and q6: "\<forall>w \<in> set q. \<forall>m \<in> set blocks. dj (win_ivl w) (blk_ivl m)"
    and q7: "\<forall>m \<in> set blocks. dj (alo, ahi) (blk_ivl m)"
    using inv by (auto simp: mb_inv_def sorted_wrt_append win_ivl_def)
  have n1: "list_all (win_ok la lb) new"
    using W b by (auto simp: win_ok_def new_def)
  have n2: "sorted_wrt dj (map win_ivl new)"
    by (auto simp: win_ivl_def dj_def new_def)
  have n3: "\<forall>n \<in> set new. alo \<le> fst (win_ivl n) \<and> snd (win_ivl n) \<le> ahi"
    using b by (auto simp: win_ivl_def new_def)
  have n4: "\<forall>n \<in> set new. dj (win_ivl n) (i, i + k)"
    by (auto simp: win_ivl_def dj_def new_def)
  have sub: "dj x (win_ivl n)" if "dj x (alo, ahi)" and "n \<in> set new" for x n
    using dj_sub [OF that(1), of "fst (win_ivl n)" "snd (win_ivl n)"] n3 that(2) by simp
  have m1: "blk_ok la lb (i, j, k)"
    using W b by (auto simp: blk_ok_def win_ok_def)
  have m2: "dj x (i, i + k)" if "dj x (alo, ahi)" for x
    using dj_sub [OF that, of i "i + k"] b by simp
  have c1: "list_all (win_ok la lb) (q @ new)"
    using q1 n1 by simp
  have c2: "list_all (blk_ok la lb) (blocks @ [(i, j, k)])"
    using q2 m1 by simp
  have c3: "sorted_wrt dj (map win_ivl (q @ new))"
    using q3 n2 q5 sub by (auto simp: sorted_wrt_append)
  have c4: "sorted_wrt dj (map blk_ivl (blocks @ [(i, j, k)]))"
    using q4 q7 m2 dj_sym by (auto simp: sorted_wrt_append blk_ivl_def)
  have c5: "\<forall>w \<in> set (q @ new). \<forall>m \<in> set (blocks @ [(i, j, k)]). dj (win_ivl w) (blk_ivl m)"
  proof (intro ballI)
    fix w m assume w: "w \<in> set (q @ new)" and m: "m \<in> set (blocks @ [(i, j, k)])"
    from w consider (old) "w \<in> set q" | (new) "w \<in> set new" by auto
    then show "dj (win_ivl w) (blk_ivl m)"
    proof cases
      case old
      show ?thesis
      proof (cases "m \<in> set blocks")
        case True
        with old q6 show ?thesis by simp
      next
        case False
        with m have "m = (i, j, k)" by simp
        with old q5 m2 show ?thesis by (simp add: blk_ivl_def)
      qed
    next
      case new
      show ?thesis
      proof (cases "m \<in> set blocks")
        case True
        with q7 have "dj (blk_ivl m) (alo, ahi)" by (simp add: dj_sym)
        from sub [OF this new] show ?thesis by (rule dj_sym)
      next
        case False
        with m have "m = (i, j, k)" by simp
        with new n4 show ?thesis by (simp add: blk_ivl_def)
      qed
    qed
  qed
  show ?thesis
    unfolding mb_inv_def using c1 c2 c3 c4 c5 unfolding new_def by blast
qed

lemma mb_loop_inv:
  "mb_inv la lb queue blocks \<Longrightarrow> mb_inv la lb [] (mb_loop a b b2j queue blocks)"
proof (induction "queue_size queue" arbitrary: queue blocks rule: less_induct)
  case less
  show ?case
  proof (cases "queue = []")
    case True
    then show ?thesis using less.prems by (simp add: mb_loop.simps)
  next
    case False
    obtain alo ahi blo bhi where l: "last queue = (alo, ahi, blo, bhi)"
      by (cases "last queue") auto
    obtain i j k where f: "find_longest_match a b b2j alo ahi blo bhi = (i, j, k)"
      by (cases "find_longest_match a b b2j alo ahi blo bhi") auto
    have q: "queue = butlast queue @ [(alo, ahi, blo, bhi)]"
      using False l by (metis append_butlast_last_id)
    show ?thesis
    proof (cases "k = 0")
      case True
      have step: "mb_loop a b b2j queue blocks = mb_loop a b b2j (butlast queue) blocks"
        using False l f True by (subst mb_loop.simps) simp
      have "queue_size (butlast queue) < queue_size queue"
        using queue_size_pop [OF False l] by simp
      moreover have "mb_inv la lb (butlast queue) blocks"
        using less.prems q mb_inv_pop by metis
      ultimately show ?thesis unfolding step by (rule less.hyps)
    next
      case nz: False
      let ?q' = "butlast queue @ (if alo < i \<and> blo < j then [(alo, i, blo, j)] else [])
                   @ (if i + k < ahi \<and> j + k < bhi then [(i + k, ahi, j + k, bhi)] else [])"
      have step: "mb_loop a b b2j queue blocks = mb_loop a b b2j ?q' (blocks @ [(i, j, k)])"
        using False l f nz by (subst mb_loop.simps) simp
      have "queue_size ?q' < queue_size queue"
        by (rule queue_size_push [OF False l f nz])
      moreover have "mb_inv la lb ?q' (blocks @ [(i, j, k)])"
      proof (rule mb_inv_push)
        show "mb_inv la lb (butlast queue @ [(alo, ahi, blo, bhi)]) blocks"
          using less.prems q by simp
      qed (use find_longest_match_bounds [OF f] nz in simp_all)
      ultimately show ?thesis unfolding step by (rule less.hyps)
    qed
  qed
qed

lemma sorted_wrt_sym_pairwise:
  "sorted_wrt R xs \<Longrightarrow> (\<And>u v. R u v \<Longrightarrow> R v u) \<Longrightarrow> x \<in> set xs \<Longrightarrow> y \<in> set xs \<Longrightarrow> x \<noteq> y
   \<Longrightarrow> R x y"
  by (induction xs) auto

lemma sorted_wrt_irrefl_distinct:
  "sorted_wrt R xs \<Longrightarrow> (\<And>x. x \<in> set xs \<Longrightarrow> \<not> R x x) \<Longrightarrow> distinct xs"
  by (induction xs) auto

lemma sort_blocks:
  assumes ok: "list_all (blk_ok la lb) bs" and s: "sorted_wrt dj (map blk_ivl bs)"
  shows "sorted_wrt before (sort bs)"
proof -
  let ?R = "\<lambda>x y. dj (blk_ivl x) (blk_ivl y)"
  have s': "sorted_wrt ?R bs"
    using s by (simp add: sorted_wrt_map)
  have irr: "\<not> ?R x x" if "x \<in> set bs" for x
    using ok that by (cases x) (auto simp: list_all_iff blk_ok_def dj_def blk_ivl_def)
  have d: "distinct bs"
    by (rule sorted_wrt_irrefl_distinct [OF s' irr])
  have lt: "sorted_wrt (<) (sort bs)"
    using d by (simp add: strict_sorted_iff)
  have "before x y" if x: "x \<in> set (sort bs)" and y: "y \<in> set (sort bs)" and xy: "x < y" for x y
  proof -
    obtain i1 j1 k1 where x': "x = (i1, j1, k1)" by (cases x) auto
    obtain i2 j2 k2 where y': "y = (i2, j2, k2)" by (cases y) auto
    have "?R x y"
      using sorted_wrt_sym_pairwise [OF s', of x y] dj_sym x y xy by auto
    moreover have "0 < k1" and "0 < k2"
      using ok x y x' y' by (auto simp: list_all_iff blk_ok_def)
    moreover have "i1 \<le> i2"
      using xy x' y' by (auto simp: less_prod_def)
    ultimately show ?thesis
      by (auto simp: before_def x' y' dj_def blk_ivl_def)
  qed
  with lt show ?thesis
    by (rule sorted_wrt_mono_rel [rotated])
qed

lemma collapse_acc: "collapse rest cur acc = acc @ collapse rest cur []"
proof (induction rest arbitrary: cur acc)
  case Nil
  then show ?case by (cases cur) simp
next
  case (Cons m rest)
  obtain i1 j1 k1 where cur: "cur = (i1, j1, k1)" by (cases cur) auto
  obtain i2 j2 k2 where m: "m = (i2, j2, k2)" by (cases m) auto
  show ?case
  proof (cases "i1 + k1 = i2 \<and> j1 + k1 = j2")
    case True
    then show ?thesis
      using Cons.IH [of "(i1, j1, k1 + k2)" acc] by (simp add: cur m)
  next
    case False
    then show ?thesis
      using Cons.IH [of "(i2, j2, k2)" "acc @ [(i1, j1, k1)]"]
        Cons.IH [of "(i2, j2, k2)" "[(i1, j1, k1)]"] Cons.IH [of "(i2, j2, k2)" acc]
      by (auto simp: cur m)
  qed
qed

lemma collapse_step:
  "collapse ((i2, j2, k2) # rest) (i1, j1, k1) [] =
     (if i1 + k1 = i2 \<and> j1 + k1 = j2 then collapse rest (i1, j1, k1 + k2) []
      else (if k1 \<noteq> 0 then [(i1, j1, k1)] else []) @ collapse rest (i2, j2, k2) [])"
  using collapse_acc [of rest "(i2, j2, k2)" "[(i1, j1, k1)]"] by simp

lemma collapse_chain:
  "sorted_wrt before rest \<Longrightarrow> (\<And>y. y \<in> set rest \<Longrightarrow> before (i1, j1, k1) y)
   \<Longrightarrow> list_all (blk_le la lb) ((i1, j1, k1) # rest) \<Longrightarrow> c \<le> i1
   \<Longrightarrow> chainA c (collapse rest (i1, j1, k1) [] @ [(la, lb, 0)])
       \<and> list_all (blk_le la lb) (collapse rest (i1, j1, k1) [])"
proof (induction rest arbitrary: i1 j1 k1 c)
  case Nil
  then show ?case by simp
next
  case (Cons m rest)
  obtain i2 j2 k2 where m: "m = (i2, j2, k2)" by (cases m) auto
  have srt: "sorted_wrt before rest" and nxt: "\<And>y. y \<in> set rest \<Longrightarrow> before (i2, j2, k2) y"
    using Cons.prems(1) by (simp_all add: m)
  have le2: "i1 + k1 \<le> i2"
    using Cons.prems(2) [of m] by (simp add: m before_def)
  have b1: "blk_le la lb (i1, j1, k1)" and b2: "blk_le la lb (i2, j2, k2)"
    and br: "list_all (blk_le la lb) rest"
    using Cons.prems(3) by (simp_all add: m)
  show ?case
  proof (cases "i1 + k1 = i2 \<and> j1 + k1 = j2")
    case True
    have "before (i1, j1, k1 + k2) y" if "y \<in> set rest" for y
      using nxt [OF that] True by (cases y) (simp add: before_def)
    moreover have "list_all (blk_le la lb) ((i1, j1, k1 + k2) # rest)"
      using b2 br True by auto
    ultimately have "chainA c (collapse rest (i1, j1, k1 + k2) [] @ [(la, lb, 0)])
         \<and> list_all (blk_le la lb) (collapse rest (i1, j1, k1 + k2) [])"
      using srt Cons.prems(4) by (intro Cons.IH)
    with True show ?thesis by (simp add: m collapse_step del: collapse.simps)
  next
    case False
    have l: "list_all (blk_le la lb) ((i2, j2, k2) # rest)"
      using b2 br by simp
    show ?thesis
    proof (cases "k1 = 0")
      case True
      have "c \<le> i2" using Cons.prems(4) le2 by simp
      from Cons.IH [OF srt nxt l this] False True show ?thesis
        by (auto simp: m collapse_step simp del: collapse.simps)
    next
      case nz: False
      from Cons.IH [OF srt nxt l le2] False nz b1 Cons.prems(4) show ?thesis
        by (auto simp: m collapse_step simp del: collapse.simps)
    qed
  qed
qed

lemma blk_ok_le: "list_all (blk_ok la lb) bs \<Longrightarrow> list_all (blk_le la lb) bs"
  by (auto simp: list_all_iff blk_ok_def blk_le_def)

lemma get_matching_blocks_chain:
  "\<exists>bs. get_matching_blocks a b = bs @ [(length a, length b, 0)]
        \<and> chainA 0 (bs @ [(length a, length b, 0)])
        \<and> list_all (blk_le (length a) (length b)) bs"
proof -
  let ?la = "length a" and ?lb = "length b"
  define blocks where "blocks = mb_loop a b (chain_b b) [(0, ?la, 0, ?lb)] []"
  have "mb_inv ?la ?lb [(0, ?la, 0, ?lb)] []"
    by (simp add: mb_inv_def win_ok_def)
  then have "mb_inv ?la ?lb [] blocks"
    unfolding blocks_def by (rule mb_loop_inv)
  then have ok: "list_all (blk_ok ?la ?lb) blocks" and dis: "sorted_wrt dj (map blk_ivl blocks)"
    by (simp_all add: mb_inv_def)
  have srt: "sorted_wrt before (sort blocks)"
    by (rule sort_blocks [OF ok dis])
  have "list_all (blk_le ?la ?lb) (sort blocks)"
    using blk_ok_le [OF ok] by (simp add: list_all_iff)
  then have l: "list_all (blk_le ?la ?lb) ((0, 0, 0) # sort blocks)"
    by simp
  have "before (0, 0, 0) y" for y
    by (cases y) (simp add: before_def)
  then have "chainA 0 (collapse (sort blocks) (0, 0, 0) [] @ [(?la, ?lb, 0)])
      \<and> list_all (blk_le ?la ?lb) (collapse (sort blocks) (0, 0, 0) [])"
    using srt l by (intro collapse_chain) simp_all
  then show ?thesis
    by (simp add: get_matching_blocks_def Let_def blocks_def)
qed

subsection \<open>The opcodes cover the first sequence\<close>

lemma opcodes_loop_acc: "opcodes_loop bs i j answer = answer @ opcodes_loop bs i j []"
proof (induction bs arbitrary: i j answer)
  case Nil
  then show ?case by simp
next
  case (Cons m bs)
  obtain ai bj sz where m: "m = (ai, bj, sz)" by (cases m) auto
  define pre where "pre = (if i < ai \<and> j < bj then [(Replace, i, ai, j, bj)]
                     else if i < ai then [(Delete, i, ai, j, bj)]
                     else if j < bj then [(Insert, i, ai, j, bj)]
                     else [])
                    @ (if sz \<noteq> 0 then [(Equal, ai, ai + sz, bj, bj + sz)] else [])"
  have "opcodes_loop (m # bs) i j answer = opcodes_loop bs (ai + sz) (bj + sz) (answer @ pre)"
    for answer
    by (simp add: m pre_def Let_def)
  then show ?case
    using Cons.IH [of "ai + sz" "bj + sz" "answer @ pre"] Cons.IH [of "ai + sz" "bj + sz" "[] @ pre"]
    by simp
qed

lemma opcodes_loop_step:
  "opcodes_loop ((ai, bj, sz) # bs) i j [] =
     (if i < ai \<and> j < bj then [(Replace, i, ai, j, bj)]
      else if i < ai then [(Delete, i, ai, j, bj)]
      else if j < bj then [(Insert, i, ai, j, bj)]
      else [])
     @ (if sz \<noteq> 0 then [(Equal, ai, ai + sz, bj, bj + sz)] else [])
     @ opcodes_loop bs (ai + sz) (bj + sz) []"
proof -
  define pre where "pre = (if i < ai \<and> j < bj then [(Replace, i, ai, j, bj)]
                     else if i < ai then [(Delete, i, ai, j, bj)]
                     else if j < bj then [(Insert, i, ai, j, bj)]
                     else [])
                    @ (if sz \<noteq> 0 then [(Equal, ai, ai + sz, bj, bj + sz)] else [])"
  have "opcodes_loop ((ai, bj, sz) # bs) i j [] = opcodes_loop bs (ai + sz) (bj + sz) pre"
    by (simp add: pre_def Let_def)
  also have "\<dots> = pre @ opcodes_loop bs (ai + sz) (bj + sz) []"
    by (rule opcodes_loop_acc)
  finally show ?thesis by (simp add: pre_def)
qed

lemma op_positions_append: "op_positions (xs @ ys) = op_positions xs @ op_positions ys"
  by (induction xs) auto

lemma upt_join: "i \<le> j \<Longrightarrow> j \<le> k \<Longrightarrow> [i..<j] @ [j..<k] = [i..<k]"
  by (metis le_add_diff_inverse upt_add_eq_append)

lemma opcodes_loop_cover:
  "chainA i (bs @ [(la, lb, 0)]) \<Longrightarrow> list_all (blk_le la lb) bs \<Longrightarrow>
   op_positions (opcodes_loop (bs @ [(la, lb, 0)]) i j []) = [i..<la] \<and> i \<le> la
   \<and> list_all (op_ok la lb) (opcodes_loop (bs @ [(la, lb, 0)]) i j [])"
proof (induction bs arbitrary: i j)
  case Nil
  then show ?case by simp
next
  case (Cons m bs)
  obtain ai bj sz where m: "m = (ai, bj, sz)" by (cases m) auto
  have i: "i \<le> ai" and ch: "chainA (ai + sz) (bs @ [(la, lb, 0)])"
    using Cons.prems(1) by (simp_all add: m)
  have le: "ai + sz \<le> la" "bj + sz \<le> lb" and l: "list_all (blk_le la lb) bs"
    using Cons.prems(2) by (simp_all add: m)
  from Cons.IH [OF ch l, of "bj + sz"]
  have p: "op_positions (opcodes_loop (bs @ [(la, lb, 0)]) (ai + sz) (bj + sz) []) = [ai + sz..<la]"
    and o: "list_all (op_ok la lb) (opcodes_loop (bs @ [(la, lb, 0)]) (ai + sz) (bj + sz) [])"
    by simp_all
  have j1: "[i..<ai] @ [ai..<ai + sz] @ [ai + sz..<la] = [i..<la]"
    using i le(1) by (simp add: upt_join)
  have j0: "[ai..<ai + sz] @ [ai + sz..<la] = [ai..<la]"
    using le(1) by (simp add: upt_join)
  have "op_positions (opcodes_loop ((m # bs) @ [(la, lb, 0)]) i j []) = [i..<la]"
    using p i j1 j0
    by (auto simp: m opcodes_loop_step op_positions_append simp del: opcodes_loop.simps)
  moreover have "list_all (op_ok la lb) (opcodes_loop ((m # bs) @ [(la, lb, 0)]) i j [])"
    using o le by (auto simp: m opcodes_loop_step simp del: opcodes_loop.simps)
  moreover have "i \<le> la" using i le(1) by simp
  ultimately show ?case by simp
qed

lemma get_opcodes_cover:
  "op_positions (get_opcodes a b) = [0..<length a]
   \<and> list_all (op_ok (length a) (length b)) (get_opcodes a b)"
proof -
  obtain bs where g: "get_matching_blocks a b = bs @ [(length a, length b, 0)]"
    and ch: "chainA 0 (bs @ [(length a, length b, 0)])"
    and l: "list_all (blk_le (length a) (length b)) bs"
    using get_matching_blocks_chain [of a b] by blast
  from opcodes_loop_cover [OF ch l, of 0] show ?thesis
    by (simp add: get_opcodes_def g)
qed

subsection \<open>The scoring loops\<close>

lemma equal_loop_ok:
  "(\<And>idx. idx \<in> set idxs \<Longrightarrow> idx < length ew \<and> j1 + (idx - i1) < length sw) \<Longrightarrow>
   \<exists>errs'. equal_loop ew sw i1 j1 idxs errs = Inr errs'
           \<and> map position errs' = map position errs @ idxs"
proof (induction idxs arbitrary: errs)
  case Nil
  then show ?case by simp
next
  case (Cons idx idxs)
  define we where "we = \<lparr>word = ew ! idx, expected = ew ! idx,
                       spoken = sw ! (j1 + (idx - i1)), position = idx, is_correct = True\<rparr>"
  have b: "idx < length ew \<and> j1 + (idx - i1) < length sw"
    using Cons.prems [of idx] by simp
  then have step: "equal_loop ew sw i1 j1 (idx # idxs) errs
                   = equal_loop ew sw i1 j1 idxs (errs @ [we])"
    by (simp add: we_def)
  have "\<exists>errs'. equal_loop ew sw i1 j1 idxs (errs @ [we]) = Inr errs'
           \<and> map position errs' = map position (errs @ [we]) @ idxs"
    using Cons.prems by (intro Cons.IH) simp
  then show ?case
    unfolding step by (simp add: we_def)
qed

lemma truediv_ok: "y \<noteq> 0 \<Longrightarrow> truediv x y = Inr (x / y)"
  by (simp add: truediv_def)

lemma calculate_ratio_total: "\<exists>sim. calculate_ratio matches len = Inr sim"
proof (cases "len = 0")
  case True
  then show ?thesis by (simp add: calculate_ratio_def)
next
  case False
  then have "(of_nat len :: rat) \<noteq> 0" by simp
  then show ?thesis
    using False by (simp add: calculate_ratio_def truediv_def)
qed

lemma ratio_total: "\<exists>sim. ratio a b = Inr sim"
  unfolding ratio_def by (rule calculate_ratio_total)

lemma replace_loop_ok:
  "(\<And>idx. idx \<in> snd ` set kidx \<Longrightarrow> idx < length ew) \<Longrightarrow>
   \<exists>cc' errs'. replace_loop ew sw j1 kidx (cc, errs) = Inr (cc', errs')
           \<and> map position errs' = map position errs @ map snd kidx"
proof (induction kidx arbitrary: cc errs)
  case Nil
  then show ?case by simp
next
  case (Cons p kidx)
  obtain k idx where p: "p = (k, idx)" by (cases p) auto
  define spoken_w where "spoken_w = (if j1 + k < length sw then sw ! (j1 + k) else [])"
  obtain sim where sim: "ratio (ew ! idx) spoken_w = Inr sim"
    using ratio_total by blast
  define we where "we = \<lparr>word = ew ! idx, expected = ew ! idx, spoken = spoken_w,
                       position = idx, is_correct = (3 / 5 \<le> sim)\<rparr>"
  define cc1 where "cc1 = (if 3 / 5 \<le> sim then cc + sim else cc)"
  have "idx < length ew" using Cons.prems [of idx] by (simp add: p)
  then have step: "replace_loop ew sw j1 (p # kidx) (cc, errs)
                   = replace_loop ew sw j1 kidx (cc1, errs @ [we])"
    by (simp add: p Let_def sim [unfolded spoken_w_def] we_def cc1_def spoken_w_def)
  have "\<exists>cc' errs'. replace_loop ew sw j1 kidx (cc1, errs @ [we]) = Inr (cc', errs')
           \<and> map position errs' = map position (errs @ [we]) @ map snd kidx"
    using Cons.prems by (intro Cons.IH) simp
  then show ?case
    unfolding step by (simp add: we_def p)
qed

lemma delete_loop_ok:
  "(\<And>idx. idx \<in> set idxs \<Longrightarrow> idx < length ew) \<Longrightarrow>
   \<exists>errs'. delete_loop ew idxs errs = Inr errs'
           \<and> map position errs' = map position errs @ idxs"
proof (induction idxs arbitrary: errs)
  case Nil
  then show ?case by simp
next
  case (Cons idx idxs)
  define we where "we = \<lparr>word = ew ! idx, expected = ew ! idx, spoken = [],
                       position = idx, is_correct = False\<rparr>"
  have "idx < length ew"
    using Cons.prems [of idx] by simp
  then have step: "delete_loop ew (idx # idxs) errs = delete_loop ew idxs (errs @ [we])"
    by (simp add: we_def)
  have "\<exists>errs'. delete_loop ew idxs (errs @ [we]) = Inr errs'
           \<and> map position errs' = map position (errs @ [we]) @ idxs"
    using Cons.prems by (intro Cons.IH) simp
  then show ?case
    unfolding step by (simp add: we_def)
qed

lemma score_loop_ok:
  "list_all (op_ok (length ew) (length sw)) ops \<Longrightarrow>
   \<exists>cc' errs'. score_loop ew sw ops (cc, errs) = Inr (cc', errs')
           \<and> map position errs' = map position errs @ op_positions ops"
proof (induction ops arbitrary: cc errs)
  case Nil
  then show ?case by simp
next
  case (Cons opc ops)
  obtain t i1 i2 j1 j2 where opc: "opc = (t, i1, i2, j1, j2)" by (cases opc) auto
  have i2: "i2 \<le> length ew" and rest: "list_all (op_ok (length ew) (length sw)) ops"
    using Cons.prems by (simp_all add: opc)
  note IH = Cons.IH [OF rest]
  show ?case
  proof (cases t)
    case Equal
    have j: "j1 + (i2 - i1) \<le> length sw"
      using Cons.prems by (simp add: opc Equal)
    have "idx < length ew \<and> j1 + (idx - i1) < length sw" if "idx \<in> set [i1..<i2]" for idx
      using that i2 j by auto
    from equal_loop_ok [of "[i1..<i2]" ew j1 i1 sw errs, OF this]
    obtain errs1 where e: "equal_loop ew sw i1 j1 [i1..<i2] errs = Inr errs1"
      and p: "map position errs1 = map position errs @ [i1..<i2]" by blast
    from IH [of "cc + of_nat (i2 - i1)" errs1] e p show ?thesis
      by (simp add: opc Equal)
  next
    case Replace
    have "idx < length ew" if "idx \<in> snd ` set (enumerate 0 [i1..<i2])" for idx
    proof -
      have "snd ` set (enumerate 0 [i1..<i2]) = set (map snd (enumerate 0 [i1..<i2]))"
        by (simp only: set_map)
      also have "\<dots> = set [i1..<i2]"
        by (simp only: map_snd_enumerate)
      finally show ?thesis using that i2 by simp
    qed
    from replace_loop_ok [of "enumerate 0 [i1..<i2]" ew sw j1 cc errs, OF this]
    obtain cc1 errs1 where e: "replace_loop ew sw j1 (enumerate 0 [i1..<i2]) (cc, errs)
                               = Inr (cc1, errs1)"
      and p: "map position errs1 = map position errs @ [i1..<i2]" by auto
    from IH [of cc1 errs1] e p show ?thesis
      by (simp add: opc Replace)
  next
    case Delete
    have "idx < length ew" if "idx \<in> set [i1..<i2]" for idx
      using that i2 by simp
    from delete_loop_ok [of "[i1..<i2]" ew errs, OF this]
    obtain errs1 where e: "delete_loop ew [i1..<i2] errs = Inr errs1"
      and p: "map position errs1 = map position errs @ [i1..<i2]" by blast
    from IH [of cc errs1] e p show ?thesis
      by (simp add: opc Delete)
  next
    case Insert
    from IH [of cc errs] show ?thesis
      by (simp add: opc Insert)
  qed
qed

lemma fluency_total: "\<exists>fluency. ps_fluency_score sw ew = Inr fluency"
  by (simp add: ps_fluency_score_def truediv_def)

lemma score_words_total:
  "\<exists>overall accuracy fluency errs.
      score_words sw ew = Inr (overall, accuracy, fluency, errs)
      \<and> map position errs = [0..<length ew]"
proof -
  have c: "op_positions (get_opcodes ew sw) = [0..<length ew]"
    and o: "list_all (op_ok (length ew) (length sw)) (get_opcodes ew sw)"
    using get_opcodes_cover [of ew sw] by simp_all
  from score_loop_ok [OF o, of 0 "[]"] obtain cc errs
    where sc: "score_loop ew sw (get_opcodes ew sw) (0, []) = Inr (cc, errs)"
      and p: "map position errs = op_positions (get_opcodes ew sw)" by auto
  obtain fluency where f: "ps_fluency_score sw ew = Inr fluency"
    using fluency_total by blast
  show ?thesis
    using p c by (auto simp: score_words_def Let_def sc f truediv_def max_def)
qed

lemma ps_score_total:
  "\<exists>r. ps_score s e = Inr r
       \<and> map position (word_errors r) = [0..<length (str_split (ps_normalise e))]
       \<and> spoken_text r = s \<and> expected_text r = e"
proof -
  let ?sw = "str_split (ps_normalise s)" and ?ew = "str_split (ps_normalise e)"
  obtain overall accuracy fluency errs
    where sc: "score_words ?sw ?ew = Inr (overall, accuracy, fluency, errs)"
      and p: "map position errs = [0..<length ?ew]"
    using score_words_total [of ?sw ?ew] by blast
  show ?thesis
    using p by (simp add: ps_score_def Let_def sc)
qed

subsection \<open>An empty spoken counterpart\<close>

lemma str_split_nonempty: "w \<in> set (str_split s) \<Longrightarrow> w \<noteq> []"
proof (induction s rule: str_split.induct)
  case (1 s)
  show ?case
  proof (cases "dropWhile isspace s")
    case Nil
    with "1.prems" show ?thesis by (simp add: str_split.simps [of s])
  next
    case (Cons c cs)
    with "1.prems" "1.IH" [OF Cons] show ?thesis
      by (auto simp: str_split.simps [of s])
  qed
qed

lemma mb_loop_empty_b: "mb_loop a [] b2j [(0, la, 0, 0)] [] = []"
proof -
  obtain i j k where f: "find_longest_match a [] b2j 0 la 0 0 = (i, j, k)"
    by (cases "find_longest_match a [] b2j 0 la 0 0") auto
  have "k = 0"
    using find_longest_match_bounds(4) [OF f] by auto
  then have "mb_loop a [] b2j [(0, la, 0, 0)] [] = mb_loop a [] b2j [] []"
    using f by (subst mb_loop.simps) simp
  then show ?thesis by (simp add: mb_loop.simps)
qed

lemma ratio_empty: "w \<noteq> [] \<Longrightarrow> ratio w [] = Inr 0"
  by (simp add: ratio_def get_matching_blocks_def mb_loop_empty_b calculate_ratio_def
      truediv_def)

lemma equal_loop_we:
  "equal_loop ew sw i1 j1 idxs errs = Inr errs' \<Longrightarrow> (\<And>w. w \<in> set sw \<Longrightarrow> w \<noteq> [])
   \<Longrightarrow> list_all we_ok errs \<Longrightarrow> list_all we_ok errs'"
proof (induction idxs arbitrary: errs)
  case Nil
  then show ?case by simp
next
  case (Cons idx idxs)
  define we where "we = \<lparr>word = ew ! idx, expected = ew ! idx,
                       spoken = sw ! (j1 + (idx - i1)), position = idx, is_correct = True\<rparr>"
  show ?case
  proof (cases "idx < length ew \<and> j1 + (idx - i1) < length sw")
    case True
    then have "sw ! (j1 + (idx - i1)) \<noteq> []"
      using Cons.prems(2) by simp
    then have ok: "list_all we_ok (errs @ [we])"
      using Cons.prems(3) by (simp add: we_def)
    have "equal_loop ew sw i1 j1 idxs (errs @ [we]) = Inr errs'"
      using Cons.prems(1) True by (simp add: we_def)
    from Cons.IH [OF this Cons.prems(2) ok] show ?thesis .
  next
    case False
    with Cons.prems(1) show ?thesis by auto
  qed
qed

lemma replace_loop_we:
  "replace_loop ew sw j1 kidx (cc, errs) = Inr (cc', errs') \<Longrightarrow> (\<And>w. w \<in> set sw \<Longrightarrow> w \<noteq> [])
   \<Longrightarrow> (\<And>w. w \<in> set ew \<Longrightarrow> w \<noteq> []) \<Longrightarrow> list_all we_ok errs \<Longrightarrow> list_all we_ok errs'"
proof (induction kidx arbitrary: cc errs)
  case Nil
  then show ?case by simp
next
  case (Cons p kidx)
  obtain k idx where p: "p = (k, idx)" by (cases p) auto
  define spoken_w where "spoken_w = (if j1 + k < length sw then sw ! (j1 + k) else [])"
  obtain sim where sim: "ratio (ew ! idx) spoken_w = Inr sim"
    using ratio_total by blast
  define we where "we = \<lparr>word = ew ! idx, expected = ew ! idx, spoken = spoken_w,
                       position = idx, is_correct = (3 / 5 \<le> sim)\<rparr>"
  define cc1 where "cc1 = (if 3 / 5 \<le> sim then cc + sim else cc)"
  show ?case
  proof (cases "idx < length ew")
    case True
    then have step: "replace_loop ew sw j1 (p # kidx) (cc, errs)
                     = replace_loop ew sw j1 kidx (cc1, errs @ [we])"
      by (simp add: p Let_def sim [unfolded spoken_w_def] we_def cc1_def spoken_w_def)
    have "ew ! idx \<noteq> []" using True Cons.prems(3) by simp
    then have "\<not> (3 / 5 \<le> sim)" if "spoken_w = []"
      using that sim by (simp add: ratio_empty)
    then have ok: "list_all we_ok (errs @ [we])"
      using Cons.prems(4) by (auto simp: we_def)
    have "replace_loop ew sw j1 kidx (cc1, errs @ [we]) = Inr (cc', errs')"
      using Cons.prems(1) unfolding step .
    from Cons.IH [OF this Cons.prems(2,3) ok] show ?thesis .
  next
    case False
    with Cons.prems(1) show ?thesis by (simp add: p Let_def)
  qed
qed

lemma delete_loop_we:
  "delete_loop ew idxs errs = Inr errs' \<Longrightarrow> list_all we_ok errs \<Longrightarrow> list_all we_ok errs'"
proof (induction idxs arbitrary: errs)
  case Nil
  then show ?case by simp
next
  case (Cons idx idxs)
  define we where "we = \<lparr>word = ew ! idx, expected = ew ! idx, spoken = [],
                       position = idx, is_correct = False\<rparr>"
  show ?case
  proof (cases "idx < length ew")
    case True
    have ok: "list_all we_ok (errs @ [we])"
      using Cons.prems(2) by (simp add: we_def)
    have "delete_loop ew idxs (errs @ [we]) = Inr errs'"
      using Cons.prems(1) True by (simp add: we_def)
    from Cons.IH [OF this ok] show ?thesis .
  next
    case False
    with Cons.prems(1) show ?thesis by simp
  qed
qed

lemma score_loop_we:
  "score_loop ew sw ops (cc, errs) = Inr (cc', errs') \<Longrightarrow> (\<And>w. w \<in> set sw \<Longrightarrow> w \<noteq> [])
   \<Longrightarrow> (\<And>w. w \<in> set ew \<Longrightarrow> w \<noteq> []) \<Longrightarrow> list_all we_ok errs \<Longrightarrow> list_all we_ok errs'"
proof (induction ops arbitrary: cc errs)
  case Nil
  then show ?case by simp
next
  case (Cons opc ops)
  obtain t i1 i2 j1 j2 where opc: "opc = (t, i1, i2, j1, j2)" by (cases opc) auto
  show ?case
  proof (cases t)
    case Equal
    show ?thesis
    proof (cases "equal_loop ew sw i1 j1 [i1..<i2] errs")
      case (Inl x)
      with Cons.prems(1) show ?thesis by (simp add: opc Equal)
    next
      case (Inr errs1)
      have ok: "list_all we_ok errs1"
        by (rule equal_loop_we [OF Inr Cons.prems(2) Cons.prems(4)])
      have "score_loop ew sw ops (cc + of_nat (i2 - i1), errs1) = Inr (cc', errs')"
        using Cons.prems(1) Inr by (simp add: opc Equal)
      from Cons.IH [OF this Cons.prems(2,3) ok] show ?thesis .
    qed
  next
    case Replace
    show ?thesis
    proof (cases "replace_loop ew sw j1 (enumerate 0 [i1..<i2]) (cc, errs)")
      case (Inl x)
      with Cons.prems(1) show ?thesis by (simp add: opc Replace)
    next
      case (Inr st)
      obtain cc1 errs1 where st: "st = (cc1, errs1)" by (cases st) auto
      have ok: "list_all we_ok errs1"
        by (rule replace_loop_we [OF Inr [unfolded st] Cons.prems(2,3,4)])
      have "score_loop ew sw ops (cc1, errs1) = Inr (cc', errs')"
        using Cons.prems(1) Inr by (simp add: opc Replace st)
      from Cons.IH [OF this Cons.prems(2,3) ok] show ?thesis .
    qed
  next
    case Delete
    show ?thesis
    proof (cases "delete_loop ew [i1..<i2] errs")
      case (Inl x)
      with Cons.prems(1) show ?thesis by (simp add: opc Delete)
    next
      case (Inr errs1)
      have ok: "list_all we_ok errs1"
        by (rule delete_loop_we [OF Inr Cons.prems(4)])
      have "score_loop ew sw ops (cc, errs1) = Inr (cc', errs')"
        using Cons.prems(1) Inr by (simp add: opc Delete)
      from Cons.IH [OF this Cons.prems(2,3) ok] show ?thesis .
    qed
  next
    case Insert
    have "score_loop ew sw ops (cc, errs) = Inr (cc', errs')"
      using Cons.prems(1) by (simp add: opc Insert)
    from Cons.IH [OF this Cons.prems(2,3,4)] show ?thesis .
  qed
qed

lemma score_words_we:
  assumes "score_words sw ew = Inr (overall, accuracy, fluency, errs)"
    and "\<And>w. w \<in> set sw \<Longrightarrow> w \<noteq> []" and "\<And>w. w \<in> set ew \<Longrightarrow> w \<noteq> []"
  shows "list_all we_ok errs"
proof (cases "score_loop ew sw (get_opcodes ew sw) (0, [])")
  case (Inl x)
  with assms(1) show ?thesis by (simp add: score_words_def Let_def)
next
  case (Inr st)
  obtain cc errs1 where st: "st = (cc, errs1)" by (cases st) auto
  have "list_all we_ok errs1"
    by (rule score_loop_we [OF Inr [unfolded st] assms(2,3)]) simp_all
  moreover have "errs = errs1"
    using assms(1) Inr st by (auto simp: score_words_def Let_def split: sum.splits)
  ultimately show ?thesis by simp
qed

lemma ps_score_we: "ps_score s e = Inr r \<Longrightarrow> list_all we_ok (word_errors r)"
proof -
  assume r: "ps_score s e = Inr r"
  let ?sw = "str_split (ps_normalise s)" and ?ew = "str_split (ps_normalise e)"
  obtain overall accuracy fluency errs
    where sc: "score_words ?sw ?ew = Inr (overall, accuracy, fluency, errs)"
    using score_words_total [of ?sw ?ew] by blast
  have "list_all we_ok errs"
    by (rule score_words_we [OF sc]) (simp_all add: str_split_nonempty)
  moreover have "word_errors r = errs"
    using r by (auto simp: ps_score_def Let_def sc)
  ultimately show ?thesis by simp
qed

section \<open>The claims of the specification\<close>

subsection \<open>C1: empty expected text\<close>

text \<open>
  C1, as the specification states it: for \<open>expected_text = ""\<close> and
  \<open>spoken_text = "anything"\<close> the result has no word errors, fluency 100, accuracy 0
  and overall score 0. The code does not return that: the overall score is
  \<open>0 * 0.7 + 100 * 0.3 = 30\<close>, the fluency of 100 entering with its weight.
\<close>

theorem empty_expected_overall_not_zero:
  "case ps_score ''anything'' '''' of
     Inl e \<Rightarrow> False
   | Inr r \<Rightarrow> word_errors r = [] \<and> fluency_score r = 100 \<and> accuracy_score r = 0
              \<and> overall_score r = 30 \<and> overall_score r \<noteq> 0"
  by code_simp

text \<open>
  C1, amended: for \<open>expected_text = ""\<close> and \<open>spoken_text = "anything"\<close> the result
  has no word errors, fluency score 100, accuracy score 0 and overall score 30.
\<close>

theorem empty_expected_scores:
  "ps_score ''anything'' '''' =
     Inr \<lparr>overall_score = 30, accuracy_score = 0, fluency_score = 100,
          word_errors = [],
          feedback = ''Keep going! Every attempt makes you better. Try saying it slowly first.'',
          spoken_text = ''anything'', expected_text = ''''\<rparr>"
  by code_simp

subsection \<open>C2: pairing inside a \<open>replace\<close> opcode\<close>

text \<open>
  C2 says that inside a \<open>replace\<close> opcode an expected word beyond the opcode's
  spoken range is paired with the empty string, never with a spoken word outside
  that range. The code tests \<open>j1 + k < len(spoken_words)\<close>, the length of the
  whole spoken sequence, not \<open>j1 + k < j2\<close>. For the expected text
  \<open>"dog cats cat"\<close> and the spoken text \<open>"a cat"\<close> the opcodes are
  \<open>replace [0,2) [0,1)\<close> and \<open>equal [2,3) [1,2)\<close>; the expected word \<open>cats\<close> at
  offset 1 of the \<open>replace\<close> is paired with \<open>spoken_words[1] = "cat"\<close>, the word of
  the following \<open>equal\<close> opcode, is classified correct and earns the credit \<open>6/7\<close>:
  the accuracy is \<open>(6/7 + 1) / 3 * 100\<close>, rounded 61.9, where pairing with the
  empty string would give 33.3.
\<close>

theorem replace_pairs_outside_spoken_range:
  "get_opcodes (str_split (ps_normalise ''dog cats cat'')) (str_split (ps_normalise ''a cat''))
     = [(Replace, 0, 2, 0, 1), (Equal, 2, 3, 1, 2)]
   \<and> ps_score ''a cat'' ''dog cats cat'' =
     Inr \<lparr>overall_score = 643 / 10, accuracy_score = 619 / 10, fluency_score = 70,
          word_errors =
            [\<lparr>word = ''dog'', expected = ''dog'', spoken = ''a'', position = 0,
              is_correct = False\<rparr>,
             \<lparr>word = ''cats'', expected = ''cats'', spoken = ''cat'', position = 1,
              is_correct = True\<rparr>,
             \<lparr>word = ''cat'', expected = ''cat'', spoken = ''cat'', position = 2,
              is_correct = True\<rparr>],
          feedback = ''Good effort! Try listening to the slow version and repeating.'',
          spoken_text = ''a cat'', expected_text = ''dog cats cat''\<rparr>"
  by code_simp

subsection \<open>C3: one word error for each expected word\<close>

text \<open>
  C3: for every pair of input strings the result has as many word errors as the
  normalised expected text has words, and their positions are \<open>0, 1, ..., N - 1\<close> in
  this order, without a repetition or a gap, whatever the number of spoken words
  that the alignment reports as inserted.
\<close>

theorem coverage_invariant:
  "\<exists>r. ps_score spoken_in expected_in = Inr r
       \<and> length (word_errors r) = length (str_split (ps_normalise expected_in))
       \<and> map position (word_errors r) = [0..<length (str_split (ps_normalise expected_in))]"
proof -
  obtain r where r: "ps_score spoken_in expected_in = Inr r"
    and p: "map position (word_errors r) = [0..<length (str_split (ps_normalise expected_in))]"
    using ps_score_total [of spoken_in expected_in] by blast
  have "length (map position (word_errors r))
        = length [0..<length (str_split (ps_normalise expected_in))]"
    by (simp only: p)
  then have "length (word_errors r) = length (str_split (ps_normalise expected_in))"
    by simp
  with r p show ?thesis by blast
qed

subsection \<open>C4: the feedback before and after rounding\<close>

text \<open>
  C4, as the specification states it: the feedback is the same whether the tier is
  looked up on the overall score before or after rounding to one decimal place.
  It is not: for the expected text \<open>"abcde abcde abcde"\<close> and the spoken text
  \<open>"abcxy abcxy abcdxy"\<close> the three words earn the credits \<open>3/5\<close>, \<open>3/5\<close> and
  \<open>8/11\<close>, the unrounded overall score is \<open>2474/33 = 74.9696...\<close>, which the code
  looks up (third message), and it rounds to 75.0, of the second message.
\<close>

theorem feedback_differs_after_rounding:
  "case ps_score ''abcxy abcxy abcdxy'' ''abcde abcde abcde'' of
     Inl e \<Rightarrow> False
   | Inr r \<Rightarrow> overall_score r = 75 \<and> overall_score r = round1 (2474 / 33)
              \<and> feedback r = ps_feedback (2474 / 33)
              \<and> ps_feedback (2474 / 33) \<noteq> ps_feedback (round1 (2474 / 33))"
  by code_simp

text \<open>
  C4, amended: the feedback is the same whether the tier is looked up on the
  overall score \<open>x\<close> before or after rounding to one decimal place exactly when \<open>x\<close>
  lies outside \<open>[t - 0.05, t)\<close> for each of the thresholds \<open>t\<close> = 90, 75, 60 and
  40; for \<open>x\<close> inside one of these intervals the two lookups differ.
\<close>

theorem feedback_round_stable:
  "(ps_feedback x = ps_feedback (round1 x))
   = ((x < 1799 / 20 \<or> 90 \<le> x) \<and> (x < 1499 / 20 \<or> 75 \<le> x)
      \<and> (x < 1199 / 20 \<or> 60 \<le> x) \<and> (x < 799 / 20 \<or> 40 \<le> x))"
proof -
  have e1: "(90 \<le> round1 x) = (1799 / 20 \<le> x)"
    using round1_ge [of 90 x] by simp
  have e2: "(75 \<le> round1 x) = (1499 / 20 \<le> x)"
    using round1_ge [of 75 x] by simp
  have e3: "(60 \<le> round1 x) = (1199 / 20 \<le> x)"
    using round1_ge [of 60 x] by simp
  have e4: "(40 \<le> round1 x) = (799 / 20 \<le> x)"
    using round1_ge [of 40 x] by simp
  show ?thesis
    unfolding ps_feedback_def e1 e2 e3 e4 by (auto simp: en_dash_def)
qed

text \<open>The theorem at \<open>x = 74.94\<close>, which rounding moves to 74.9, inside the third
  tier.\<close>

theorem feedback_round_stable_witness:
  "round1 (3747 / 50) = 749 / 10 \<and> round1 (3747 / 50) \<noteq> 3747 / 50
   \<and> ps_feedback (3747 / 50) = ps_feedback (round1 (3747 / 50))"
proof -
  have r: "round1 (3747 / 50) = 749 / 10"
    by code_simp
  have "ps_feedback (3747 / 50) = ps_feedback (round1 (3747 / 50))"
    using feedback_round_stable [of "3747 / 50"] by simp
  with r show ?thesis by simp
qed

subsection \<open>C5: scoring never fails\<close>

text \<open>
  C5: for every pair of input strings, empty or not, the placeholder of a missing
  transcription being a string like any other, scoring ends and returns a full
  result: no index read of the \<open>equal\<close>, \<open>replace\<close> and \<open>delete\<close> branches is out of
  range, and no division is by zero (\<open>accuracy\<close> divides by \<open>max(total, 1)\<close>, the
  fluency score divides only by the length of a non-empty sequence, \<open>ratio\<close> only
  by a non-zero sum of lengths). Every loop of the model is a total function and
  the two failures are values, so the claim is that the result is never \<open>Inl\<close>.
  The first part of the theorem is \<open>_score\<close> on texts of the 256 characters; the
  second is \<open>_score\<close> from the alignment on, for word sequences over any type of
  characters, so also for the words of a Python string with code points beyond
  255, such as the placeholder with its en dash.
\<close>

theorem scoring_never_fails:
  "(\<exists>r. ps_score spoken_in expected_in = Inr r)
   \<and> (\<exists>overall accuracy fluency errs.
         score_words (spoken_words :: 'c list list) expected_words
           = Inr (overall, accuracy, fluency, errs))"
proof
  show "\<exists>r. ps_score spoken_in expected_in = Inr r"
    using ps_score_total [of spoken_in expected_in] by blast
  show "\<exists>overall accuracy fluency errs.
          score_words spoken_words expected_words = Inr (overall, accuracy, fluency, errs)"
    using score_words_total [of spoken_words expected_words] by blast
qed

subsection \<open>C6: extra spoken words\<close>

text \<open>
  C6: for \<open>expected_text = "hello"\<close> and \<open>spoken_text = "oh hello there"\<close> the result
  has exactly one word error, for \<open>hello\<close> and correct, accuracy score 100, fluency
  score 40 (the length ratio is 3) and overall score 82.
\<close>

theorem insertion_case:
  "ps_score ''oh hello there'' ''hello'' =
     Inr \<lparr>overall_score = 82, accuracy_score = 100, fluency_score = 40,
          word_errors = [\<lparr>word = ''hello'', expected = ''hello'', spoken = ''hello'',
                          position = 0, is_correct = True\<rparr>],
          feedback = ''Great job! Just a few words to polish '' @ en_dash
                     @ '' keep practising!'',
          spoken_text = ''oh hello there'', expected_text = ''hello''\<rparr>
   \<and> (of_nat (length (str_split (ps_normalise ''oh hello there'')))
        / of_nat (length (str_split (ps_normalise ''hello''))) :: rat) = 3"
  by code_simp

subsection \<open>C7: the bands of the fluency score\<close>

text \<open>
  C7: for a non-empty expected word sequence the fluency score is 100 when the
  length ratio \<open>len(spoken_words) / len(expected_words)\<close> lies in \<open>[0.8, 1.2]\<close>, 70 when
  it lies in \<open>[0.5, 1.5]\<close> but not in the first band, and 40 otherwise, the bounds
  belonging to the bands; for an empty expected word sequence it is 100. The length
  ratio is taken in the real numbers; \<open>Inr\<close> says that the score is returned, no
  division by zero being raised.
\<close>

theorem fluency_bands:
  "ps_fluency_score spoken_words expected_words =
     Inr (if expected_words = [] then 100
          else if (0.8 :: real) \<le> real (length spoken_words) / real (length expected_words)
                  \<and> real (length spoken_words) / real (length expected_words) \<le> 1.2 then 100
          else if (0.5 :: real) \<le> real (length spoken_words) / real (length expected_words)
                  \<and> real (length spoken_words) / real (length expected_words) \<le> 1.5 then 70
          else 40)"
proof (cases "expected_words = []")
  case True
  then show ?thesis by (simp add: ps_fluency_score_def)
next
  case False
  then have n: "0 < length expected_words" by simp
  let ?m = "length spoken_words" and ?n = "length expected_words"
  have a: "((4 / 5 :: rat) \<le> of_nat ?m / of_nat ?n) = ((0.8 :: real) \<le> real ?m / real ?n)"
    using band_real_rat(1) [OF n, of 5 4 ?m] by simp
  have b: "(of_nat ?m / of_nat ?n \<le> (6 / 5 :: rat)) = (real ?m / real ?n \<le> (1.2 :: real))"
    using band_real_rat(2) [OF n, of 5 ?m 6] by simp
  have c: "((1 / 2 :: rat) \<le> of_nat ?m / of_nat ?n) = ((0.5 :: real) \<le> real ?m / real ?n)"
    using band_real_rat(1) [OF n, of 2 1 ?m] by simp
  have d: "(of_nat ?m / of_nat ?n \<le> (3 / 2 :: rat)) = (real ?m / real ?n \<le> (1.5 :: real))"
    using band_real_rat(2) [OF n, of 2 ?m 3] by simp
  have t: "truediv (of_nat ?m) (of_nat ?n) = Inr (of_nat ?m / of_nat ?n)"
    using n by (simp add: truediv_def)
  show ?thesis
    using False unfolding ps_fluency_score_def t sum.case a b c d by simp
qed

subsection \<open>C8: the boundaries of the feedback tiers\<close>

text \<open>
  C8: the scores 90, 75, 60 and 40 map to the messages that begin
  \<open>Excellent pronunciation!\<close>, \<open>Great job!\<close>, \<open>Good effort!\<close> and
  \<open>You're making progress!\<close>, each threshold belonging to its tier, and 39.9 maps to
  the fifth message, \<open>Keep going!\<close>; the five messages are distinct.
\<close>

theorem feedback_tier_boundaries:
  "ps_feedback 90 = ''Excellent pronunciation! You sound very natural.''
   \<and> ps_feedback 75 = ''Great job! Just a few words to polish '' @ en_dash
                        @ '' keep practising!''
   \<and> ps_feedback 60 = ''Good effort! Try listening to the slow version and repeating.''
   \<and> ps_feedback 40 = ''You'' @ [CHR 0x27]
                        @ ''re making progress! Focus on the highlighted words and try again.''
   \<and> ps_feedback (399 / 10)
       = ''Keep going! Every attempt makes you better. Try saying it slowly first.''
   \<and> distinct [ps_feedback 90, ps_feedback 75, ps_feedback 60, ps_feedback 40,
                ps_feedback (399 / 10)]"
  by (simp add: ps_feedback_def en_dash_def)

subsection \<open>C10: an empty spoken counterpart is never correct\<close>

text \<open>
  C10: every word error of a result whose spoken field is the empty string has
  \<open>is_correct = False\<close>. The words of a split text are not empty, so the spoken field
  is empty only in a \<open>delete\<close> opcode, which reports \<open>False\<close>, and for an expected
  word of a \<open>replace\<close> opcode beyond the end of the spoken words, where the ratio of
  the non-empty expected word and the empty string is 0, below 0.6.
\<close>

theorem empty_spoken_never_correct:
  assumes "ps_score spoken_in expected_in = Inr r" and "we \<in> set (word_errors r)"
    and "spoken we = []"
  shows "\<not> is_correct we"
proof -
  have "list_all we_ok (word_errors r)"
    using assms(1) by (rule ps_score_we)
  with assms(2) have "we_ok we"
    by (simp add: list_all_iff)
  with assms(3) show ?thesis
    by (simp add: we_ok_def)
qed

theorem empty_spoken_never_correct_witness:
  "ps_score ''cc'' ''aa bb'' =
     Inr \<lparr>overall_score = 21, accuracy_score = 0, fluency_score = 70,
          word_errors =
            [\<lparr>word = ''aa'', expected = ''aa'', spoken = ''cc'', position = 0,
              is_correct = False\<rparr>,
             \<lparr>word = ''bb'', expected = ''bb'', spoken = [], position = 1,
              is_correct = False\<rparr>],
          feedback = ''Keep going! Every attempt makes you better. Try saying it slowly first.'',
          spoken_text = ''cc'', expected_text = ''aa bb''\<rparr>
   \<and> \<not> is_correct \<lparr>word = ''bb'', expected = ''bb'', spoken = [], position = 1,
                     is_correct = False\<rparr>"
proof -
  let ?we = "\<lparr>word = ''bb'', expected = ''bb'', spoken = [], position = 1, is_correct = False\<rparr>"
  let ?r = "\<lparr>overall_score = 21, accuracy_score = 0, fluency_score = 70,
          word_errors =
            [\<lparr>word = ''aa'', expected = ''aa'', spoken = ''cc'', position = 0,
              is_correct = False\<rparr>, ?we],
          feedback = ''Keep going! Every attempt makes you better. Try saying it slowly first.'',
          spoken_text = ''cc'', expected_text = ''aa bb''\<rparr>"
  have e: "ps_score ''cc'' ''aa bb'' = Inr ?r"
    by code_simp
  have "\<not> is_correct ?we"
    by (rule empty_spoken_never_correct [OF e]) simp_all
  with e show ?thesis by simp
qed

end
